theory Spec2Isabelle
  imports Main "HOL-Library.Sublist" "HOL-Library.AList"
begin

section \<open>Python string and list primitives used by easygit.py\<close>

text \<open>
  Strings are lists of characters. The two line-break characters that Python's text
  mode knows are line feed and carriage return.
\<close>

abbreviation LF :: char where "LF \<equiv> CHR 0x0A"
abbreviation CR :: char where "CR \<equiv> CHR 0x0D"

datatype error =
    FileNotFoundError
  | FileExistsError
  | IsADirectoryError
  | NotADirectoryError
  | ValueError
  | TypeError
  | IndexError

text \<open>
  A file opened with \<^verbatim>\<open>open(p, "r")\<close> is read with universal newlines: a carriage
  return, alone or followed by a line feed, arrives as one line feed.
\<close>

fun universal_newlines :: "string \<Rightarrow> string" where
  "universal_newlines [] = []"
| "universal_newlines [c] = (if c = CR then [LF] else [c])"
| "universal_newlines (c # d # ds) =
     (if c = CR \<and> d = LF then LF # universal_newlines ds
      else if c = CR then LF # universal_newlines (d # ds)
      else c # universal_newlines (d # ds))"

text \<open>\<^verbatim>\<open>readlines()\<close>: the lines of a text, each with its terminating line feed.\<close>

fun readlines :: "string \<Rightarrow> string list" where
  "readlines [] = []"
| "readlines (c # cs) =
     (if c = LF then [LF] # readlines cs
      else (case readlines cs of [] \<Rightarrow> [[c]] | l # ls \<Rightarrow> (c # l) # ls))"

text \<open>\<^verbatim>\<open>readline()\<close>: the first line of a text (empty at the end of the file).\<close>

definition readline :: "string \<Rightarrow> string" where
  "readline s = (case readlines s of [] \<Rightarrow> [] | l # _ \<Rightarrow> l)"

text \<open>\<^verbatim>\<open>s.strip("\n")\<close>: line feeds removed from both ends.\<close>

definition strip_nl :: "string \<Rightarrow> string" where
  "strip_nl s = rev (dropWhile (\<lambda>c. c = LF) (rev (dropWhile (\<lambda>c. c = LF) s)))"

text \<open>
  \<^verbatim>\<open>s.split(sep)\<close> for a non-empty separator: the pieces between the occurrences of
  \<open>sep\<close>, scanned from the left. The second argument collects the current piece in
  reverse.
\<close>

fun split_from :: "string \<Rightarrow> string \<Rightarrow> string \<Rightarrow> string list" where
  "split_from sep cur [] = [rev cur]"
| "split_from sep cur (c # cs) =
     (if sep \<noteq> [] \<and> prefix sep (c # cs)
      then rev cur # split_from sep [] (drop (length sep - 1) cs)
      else split_from sep (c # cur) cs)"

definition str_split :: "string \<Rightarrow> string \<Rightarrow> string list" where
  "str_split sep s = split_from sep [] s"

text \<open>\<^verbatim>\<open>sep.join(xs)\<close>.\<close>

fun str_join :: "string \<Rightarrow> string list \<Rightarrow> string" where
  "str_join sep [] = []"
| "str_join sep [x] = x"
| "str_join sep (x # y # ys) = x @ sep @ str_join sep (y # ys)"

text \<open>\<^verbatim>\<open>sub in s\<close> on strings: \<open>sub\<close> occurs in \<open>s\<close> as a contiguous piece.\<close>

fun str_in :: "string \<Rightarrow> string \<Rightarrow> bool" where
  "str_in sub [] = (sub = [])"
| "str_in sub (c # cs) = (prefix sub (c # cs) \<or> str_in sub cs)"

text \<open>
  \<^verbatim>\<open>xs.index(x, start)\<close>: the position of the first \<open>x\<close> at or after \<open>start\<close>;
  ValueError when there is none.
\<close>

definition list_index :: "'a list \<Rightarrow> 'a \<Rightarrow> nat \<Rightarrow> error + nat" where
  "list_index xs x start =
     (if x \<in> set (drop start xs)
      then Inr (start + length (takeWhile (\<lambda>y. y \<noteq> x) (drop start xs)))
      else Inl ValueError)"

text \<open>
  Iterating over a Python set of strings visits every element once, in an order fixed by
  the elements' hash values. The order is a parameter \<open>h\<close> of the model: the elements are
  visited by ascending \<open>h\<close>.
\<close>

definition set_iter :: "(string \<Rightarrow> nat) \<Rightarrow> string list \<Rightarrow> string list" where
  "set_iter h xs = sort_key h (remdups xs)"

section \<open>Paths (posixpath)\<close>

definition os_path_join :: "string \<Rightarrow> string \<Rightarrow> string" where
  "os_path_join a b =
     (if prefix ''/'' b then b
      else if a = [] \<or> suffix ''/'' a then a @ b
      else a @ ''/'' @ b)"

definition rstrip_slash :: "string \<Rightarrow> string" where
  "rstrip_slash s = rev (dropWhile (\<lambda>c. c = CHR ''/'') (rev s))"

definition os_path_split :: "string \<Rightarrow> string \<times> string" where
  "os_path_split p =
     (let tl0 = rev (takeWhile (\<lambda>c. c \<noteq> CHR ''/'') (rev p));
          hd0 = take (length p - length tl0) p
      in (if hd0 \<noteq> [] \<and> hd0 \<noteq> replicate (length hd0) (CHR ''/'')
          then rstrip_slash hd0 else hd0, tl0))"

definition os_path_dirname :: "string \<Rightarrow> string" where
  "os_path_dirname p = fst (os_path_split p)"

definition norm_step :: "nat \<Rightarrow> string list \<Rightarrow> string \<Rightarrow> string list" where
  "norm_step initial_slashes new_comps part =
     (if part = [] \<or> part = ''.'' then new_comps
      else if part \<noteq> ''..'' \<or> (initial_slashes = 0 \<and> new_comps = [])
              \<or> (new_comps \<noteq> [] \<and> last new_comps = ''..'')
           then new_comps @ [part]
      else if new_comps \<noteq> [] then butlast new_comps
      else new_comps)"

definition os_path_normpath :: "string \<Rightarrow> string" where
  "os_path_normpath path =
     (if path = [] then ''.''
      else
        let initial_slashes =
              (if prefix ''/'' path
               then (if prefix ''//'' path \<and> \<not> prefix ''///'' path then 2 else 1)
               else (0::nat));
            comps = foldl (norm_step initial_slashes) [] (str_split ''/'' path);
            p = replicate initial_slashes (CHR ''/'') @ str_join ''/'' comps
        in if p = [] then ''.'' else p)"

text \<open>\<^verbatim>\<open>os.path.abspath\<close>, with the process's working directory as an argument.\<close>

definition os_path_abspath :: "string \<Rightarrow> string \<Rightarrow> string" where
  "os_path_abspath cwd path =
     os_path_normpath (if prefix ''/'' path then path else os_path_join cwd path)"

section \<open>The file system\<close>

text \<open>
  The disk is an association list from absolute, normalised path strings to entries: a
  regular file with its text, or a directory. Two strings name the same entry only when
  they are equal; every path the program builds is \<open>abspath\<close> of a user's argument or a
  \<open>join\<close> of such a path with a plain name. A file's text is the sequence of characters
  that was written to it; encoding and decoding (UTF-8) are not modelled.
\<close>

datatype entry = File string | Dir

type_synonym filesystem = "(string \<times> entry) list"

definition os_path_exists :: "filesystem \<Rightarrow> string \<Rightarrow> bool" where
  "os_path_exists fs p = (map_of fs p \<noteq> None)"

definition os_path_isfile :: "filesystem \<Rightarrow> string \<Rightarrow> bool" where
  "os_path_isfile fs p = (case map_of fs p of Some (File _) \<Rightarrow> True | _ \<Rightarrow> False)"

definition os_path_isdir :: "filesystem \<Rightarrow> string \<Rightarrow> bool" where
  "os_path_isdir fs p = (map_of fs p = Some Dir)"

text \<open>\<^verbatim>\<open>open(p, "r").read()\<close>.\<close>

definition open_read :: "filesystem \<Rightarrow> string \<Rightarrow> error + string" where
  "open_read fs p =
     (case map_of fs p of
        None \<Rightarrow> Inl FileNotFoundError
      | Some Dir \<Rightarrow> Inl IsADirectoryError
      | Some (File c) \<Rightarrow> Inr (universal_newlines c))"

text \<open>
  \<^verbatim>\<open>open(p, "w")\<close> followed by one write of \<open>c\<close>: the file is created or truncated; the
  directory that holds it must exist. On a POSIX system a line feed is written as it is.
\<close>

definition open_write :: "filesystem \<Rightarrow> string \<Rightarrow> string \<Rightarrow> error + filesystem" where
  "open_write fs p c =
     (if os_path_isdir fs p then Inl IsADirectoryError
      else if os_path_isdir fs (os_path_dirname p) then Inr (AList.update p (File c) fs)
      else if os_path_exists fs (os_path_dirname p) then Inl NotADirectoryError
      else Inl FileNotFoundError)"

definition os_mkdir :: "filesystem \<Rightarrow> string \<Rightarrow> error + filesystem" where
  "os_mkdir fs p =
     (if os_path_exists fs p then Inl FileExistsError
      else if os_path_isdir fs (os_path_dirname p) then Inr (AList.update p Dir fs)
      else if os_path_exists fs (os_path_dirname p) then Inl NotADirectoryError
      else Inl FileNotFoundError)"

definition os_remove :: "filesystem \<Rightarrow> string \<Rightarrow> error + filesystem" where
  "os_remove fs p =
     (case map_of fs p of
        None \<Rightarrow> Inl FileNotFoundError
      | Some Dir \<Rightarrow> Inl IsADirectoryError
      | Some (File _) \<Rightarrow> Inr (AList.delete p fs))"

text \<open>
  \<^verbatim>\<open>os.listdir(d)\<close>: the names of the entries directly inside \<open>d\<close>, that is, the keys
  \<open>d/name\<close> with a non-empty \<open>name\<close> free of slashes.
\<close>

definition child_name :: "string \<Rightarrow> string \<Rightarrow> string option" where
  "child_name d p =
     (let pre = (if d = [] \<or> suffix ''/'' d then d else d @ ''/'');
          n = drop (length pre) p
      in if prefix pre p \<and> n \<noteq> [] \<and> CHR ''/'' \<notin> set n then Some n else None)"

definition os_listdir :: "filesystem \<Rightarrow> string \<Rightarrow> error + string list" where
  "os_listdir fs d =
     (case map_of fs d of
        None \<Rightarrow> Inl FileNotFoundError
      | Some (File _) \<Rightarrow> Inl NotADirectoryError
      | Some Dir \<Rightarrow> Inr (remdups (List.map_filter (child_name d) (map fst fs))))"

lemma os_path_split_length:
  "os_path_split p = (h, t) \<Longrightarrow> length h + length t \<le> length p"
proof -
  assume a: "os_path_split p = (h, t)"
  let ?t = "rev (takeWhile (\<lambda>c. c \<noteq> CHR ''/'') (rev p))"
  let ?h = "take (length p - length ?t) p"
  have t: "t = ?t" using a by (simp add: os_path_split_def Let_def)
  have lt: "length ?t \<le> length p"
    using length_takeWhile_le [of "\<lambda>c. c \<noteq> CHR ''/''" "rev p"] by simp
  have lh: "length h \<le> length ?h"
  proof -
    have "length (rstrip_slash ?h) \<le> length ?h"
      unfolding rstrip_slash_def using length_dropWhile_le [of _ "rev ?h"] by simp
    moreover have "h = rstrip_slash ?h \<or> h = ?h"
      using a by (auto simp add: os_path_split_def Let_def split: if_splits)
    ultimately show ?thesis by auto
  qed
  have "length ?h = length p - length ?t" using lt by simp
  with lh lt t show ?thesis by simp
qed

text \<open>\<^verbatim>\<open>os.makedirs(name, exist_ok=True)\<close>.\<close>

function os_makedirs :: "filesystem \<Rightarrow> string \<Rightarrow> error + filesystem" where
  "os_makedirs fs name =
     (let (head0, tail0) = os_path_split name;
          (head, tail) = (if tail0 = [] then os_path_split head0 else (head0, tail0));
          made = (if head \<noteq> [] \<and> tail \<noteq> [] \<and> \<not> os_path_exists fs head
                  then (case os_makedirs fs head of
                          Inl e \<Rightarrow> if e = FileExistsError then Inr (fs, tail = ''.'') else Inl e
                        | Inr fs' \<Rightarrow> Inr (fs', tail = ''.''))
                  else Inr (fs, False))
      in case made of
           Inl e \<Rightarrow> Inl e
         | Inr (fs1, finished) \<Rightarrow>
             if finished then Inr fs1
             else (case os_mkdir fs1 name of
                     Inr fs2 \<Rightarrow> Inr fs2
                   | Inl e \<Rightarrow> if os_path_isdir fs1 name then Inr fs1 else Inl e))"
  by pat_completeness auto
termination
  apply (relation "measure (\<lambda>(fs, name). length name)")
   apply simp
  apply (auto dest!: sym [of "(a, b)" "os_path_split c" for a b c] split: if_splits)
  subgoal for fs name a ba xc
    using os_path_split_length [of name a "[]"] os_path_split_length [of a xc ba]
    by (cases ba) simp_all
  subgoal for fs name b xa
    using os_path_split_length [of name xa b] by (cases b) simp_all
  done

section \<open>The repository object and its diagnostics\<close>

text \<open>
  The logger is a collaborator outside the program: every call of \<^verbatim>\<open>self.logger\<close> is an
  output of the operation, a level with the message (its time stamp left out), and is not
  a change of the disk. \<^verbatim>\<open>print\<close> is not modelled.
\<close>

datatype level = DEBUG | INFO | WARNING | ERROR

type_synonym log_record = "level \<times> string"

record easyGit =
  currentPath :: string
  repoPath :: string
  projectFolderPath :: string
  commitFolderPath :: string
  changeFolderPath :: string
  logFile :: string
  headFile :: string

text \<open>
  \<^verbatim>\<open>easyGit.__init__\<close>, for the working directory \<open>cwd\<close> and the metadata directory
  \<open>repo\<close> that \<^verbatim>\<open>getRepositoryPath\<close> found.
\<close>

definition easyGit_init :: "string \<Rightarrow> string \<Rightarrow> easyGit" where
  "easyGit_init cwd repo =
     \<lparr> currentPath = cwd,
       repoPath = repo,
       projectFolderPath = os_path_dirname repo,
       commitFolderPath = os_path_join repo ''commit'',
       changeFolderPath = os_path_join repo ''changes'',
       logFile = os_path_join (os_path_join repo ''log'') ''log.log'',
       headFile = os_path_join (os_path_join repo ''commit'') ''HEAD'' \<rparr>"

text \<open>
  What an operation leaves behind: the exception that ended it (if any), the disk, and
  the logger calls it made.
\<close>

record outcome =
  raised :: "error option"
  disk :: filesystem
  logged :: "log_record list"

definition returns :: "filesystem \<Rightarrow> log_record list \<Rightarrow> outcome" where
  "returns fs lg = \<lparr> raised = None, disk = fs, logged = lg \<rparr>"

definition raises :: "error \<Rightarrow> filesystem \<Rightarrow> log_record list \<Rightarrow> outcome" where
  "raises e fs lg = \<lparr> raised = Some e, disk = fs, logged = lg \<rparr>"

definition convertToPath :: "string \<Rightarrow> filesystem \<Rightarrow> string \<Rightarrow> string option" where
  "convertToPath cwd fs targetPath =
     (let p = os_path_abspath cwd targetPath
      in if os_path_exists fs p then Some p else None)"

section \<open>Resolving the arguments of add and remove\<close>

fun gather :: "(error + 'a list) list \<Rightarrow> error + 'a list" where
  "gather [] = Inr []"
| "gather (Inl e # rest) = Inl e"
| "gather (Inr xs # rest) = (case gather rest of Inl e \<Rightarrow> Inl e | Inr ys \<Rightarrow> Inr (xs @ ys))"

definition longest_key :: "filesystem \<Rightarrow> nat" where
  "longest_key fs = foldr (\<lambda>kv m. max (length (fst kv)) m) fs 0"

lemma longest_key_ge: "map_of fs p = Some e \<Longrightarrow> length p \<le> longest_key fs"
  by (induction fs) (auto simp add: longest_key_def split: if_splits)

lemma child_name_join:
  assumes "child_name d p = Some n"
  shows "os_path_join d n = p" and "length d < length p"
proof -
  let ?pre = "if d = [] \<or> suffix ''/'' d then d else d @ ''/''"
  from assms have pre: "prefix ?pre p" and n: "n = drop (length ?pre) p"
    and ne: "n \<noteq> []" and ns: "CHR ''/'' \<notin> set n"
    by (auto simp add: child_name_def Let_def split: if_splits)
  from pre n have p: "p = ?pre @ n" by (auto simp add: prefix_def)
  have "\<not> prefix ''/'' n" using ne ns by (cases n) auto
  then show "os_path_join d n = p" using p by (auto simp add: os_path_join_def)
  show "length d < length p" using p ne by (auto split: if_splits)
qed

lemma os_listdir_child:
  assumes "os_listdir fs d = Inr names" and "n \<in> set names"
  shows "length d < length (os_path_join d n)"
proof -
  from assms obtain p where "child_name d p = Some n"
    by (auto simp add: os_listdir_def List.map_filter_def split: option.splits entry.splits)
  from child_name_join [OF this] show ?thesis by simp
qed

function getAllChildFiles :: "filesystem \<Rightarrow> string \<Rightarrow> error + string list" where
  "getAllChildFiles fs folder =
     (case os_listdir fs folder of
        Inl e \<Rightarrow> Inl e
      | Inr names \<Rightarrow>
          gather (map (\<lambda>path.
                    let item = os_path_join folder path
                    in if os_path_isfile fs item then Inr [item]
                       else if os_path_isdir fs item \<and> item \<noteq> os_path_join folder ''.easygit''
                            then getAllChildFiles fs item
                       else Inr [])
                  names))"
  by pat_completeness auto
termination
proof (relation "measure (\<lambda>(fs, folder). Suc (longest_key fs) - length folder)")
  show "wf (measure (\<lambda>(fs, folder). Suc (longest_key fs) - length folder))" by simp
next
  fix fs :: filesystem and folder :: string and names :: "string list" and path item :: string
  assume l: "os_listdir fs folder = Inr names" and m: "path \<in> set names"
    and i: "item = os_path_join folder path"
    and d: "os_path_isdir fs item \<and> item \<noteq> os_path_join folder ''.easygit''"
  have "length folder < length item" using os_listdir_child [OF l m] i by simp
  moreover have "length item \<le> longest_key fs"
    using d longest_key_ge [of fs item Dir] by (simp add: os_path_isdir_def)
  ultimately show "((fs, item), (fs, folder))
      \<in> measure (\<lambda>(fs, folder). Suc (longest_key fs) - length folder)"
    by simp
qed

text \<open>
  The explicit branch of "Get path(s)": each name that resolves to an existing entry is
  kept, each other one is reported and skipped. \<open>verb\<close> is the word of the debug message
  (Added or Removed).
\<close>

fun explicit_paths ::
  "string \<Rightarrow> string \<Rightarrow> filesystem \<Rightarrow> string list \<Rightarrow> string list \<times> log_record list" where
  "explicit_paths verb cwd fs [] = ([], [])"
| "explicit_paths verb cwd fs (filename # rest) =
     (let (ps, lg) = explicit_paths verb cwd fs rest
      in case convertToPath cwd fs filename of
           None \<Rightarrow> (ps, (WARNING, ''Cannot find file: None, ignoring...'') # lg)
         | Some currentFilePath \<Rightarrow>
             (currentFilePath # ps, (DEBUG, verb @ '' file: '' @ currentFilePath) # lg))"

definition get_paths ::
  "string \<Rightarrow> easyGit \<Rightarrow> filesystem \<Rightarrow> string list \<Rightarrow> error + string list \<times> log_record list" where
  "get_paths verb r fs targetFilenames =
     (if ''.'' \<in> set targetFilenames
      then (case getAllChildFiles fs (currentPath r) of
              Inl e \<Rightarrow> Inl e
            | Inr filePaths \<Rightarrow>
                Inr (filePaths, map (\<lambda>item. (DEBUG, ''File located: '' @ item)) filePaths))
      else Inr (explicit_paths verb (currentPath r) fs targetFilenames))"

definition stagingFilePath :: "easyGit \<Rightarrow> string" where
  "stagingFilePath r = os_path_join (repoPath r) ''stagingCache''"

text \<open>The lines of the staging file as the program reads them.\<close>

definition staged_lines :: "string \<Rightarrow> string list" where
  "staged_lines s = map strip_nl (readlines s)"

text \<open>What the program writes for a sequence of paths: each followed by a line feed.\<close>

definition write_lines :: "string list \<Rightarrow> string" where
  "write_lines ps = concat (map (\<lambda>f. f @ [LF]) ps)"

section \<open>add and remove\<close>

definition add :: "(string \<Rightarrow> nat) \<Rightarrow> easyGit \<Rightarrow> string list \<Rightarrow> filesystem \<Rightarrow> outcome" where
  "add h r targetFilenames fs =
     (let lg0 = [(DEBUG, ''function add executed'')]
      in case get_paths ''Added'' r fs targetFilenames of
           Inl e \<Rightarrow> raises e fs lg0
         | Inr (filePaths, lg1) \<Rightarrow>
             (case (if os_path_exists fs (stagingFilePath r)
                    then (case open_read fs (stagingFilePath r) of
                            Inl e \<Rightarrow> Inl e
                          | Inr s \<Rightarrow> Inr (filePaths @ staged_lines s))
                    else Inr filePaths) of
                Inl e \<Rightarrow> raises e fs (lg0 @ lg1)
              | Inr mergedFilePaths \<Rightarrow>
                  (case open_write fs (stagingFilePath r)
                          (write_lines (filter (\<lambda>f. \<not> str_in ''.easygit'' f)
                                          (set_iter h mergedFilePaths))) of
                     Inl e \<Rightarrow> raises e fs (lg0 @ lg1)
                   | Inr fs' \<Rightarrow> returns fs' (lg0 @ lg1))))"

text \<open>
  The loop of remove over the resolved paths: a path of the set is taken out, any other
  one is reported.
\<close>

fun remove_paths :: "string list \<Rightarrow> string list \<Rightarrow> string list \<times> log_record list" where
  "remove_paths originalFilePaths [] = (originalFilePaths, [])"
| "remove_paths originalFilePaths (f # rest) =
     (if f \<in> set originalFilePaths
      then remove_paths (removeAll f originalFilePaths) rest
      else (let (left, lg) = remove_paths originalFilePaths rest
            in (left, (WARNING, ''File isn't included in staging area: '' @ f) # lg)))"

definition remove :: "(string \<Rightarrow> nat) \<Rightarrow> easyGit \<Rightarrow> string list \<Rightarrow> filesystem \<Rightarrow> outcome" where
  "remove h r targetFilenames fs =
     (let lg0 = [(DEBUG, ''function remove executed'')]
      in if \<not> os_path_exists fs (stagingFilePath r)
         then returns fs (lg0 @ [(ERROR, ''staging file not found'')])
         else case get_paths ''Removed'' r fs targetFilenames of
                Inl e \<Rightarrow> raises e fs lg0
              | Inr (filePaths, lg1) \<Rightarrow>
                  (case open_read fs (stagingFilePath r) of
                     Inl e \<Rightarrow> raises e fs (lg0 @ lg1)
                   | Inr s \<Rightarrow>
                       (let (originalFilePaths, lg2) =
                              remove_paths (remdups (staged_lines s)) filePaths
                        in case (if length originalFilePaths \<noteq> 0
                                 then open_write fs (stagingFilePath r)
                                        (write_lines (set_iter h originalFilePaths))
                                 else os_remove fs (stagingFilePath r)) of
                             Inl e \<Rightarrow> raises e fs (lg0 @ lg1 @ lg2)
                           | Inr fs' \<Rightarrow> returns fs' (lg0 @ lg1 @ lg2))))"

section \<open>commit\<close>

text \<open>
  \<^verbatim>\<open>SHA1\<close> wraps \<^verbatim>\<open>hashlib.sha1\<close>, which is not code of the repository: the digest function
  is the parameter \<open>sha1\<close>. \<^verbatim>\<open>getTime()\<close> reads the clock: its result is the parameter
  \<open>now\<close>.
\<close>

text \<open>
  The loop of commit over the staged paths. \<open>written\<close> is what has been written to the
  commit record so far.
\<close>

fun commit_files ::
  "(string \<Rightarrow> string) \<Rightarrow> string \<Rightarrow> string list \<Rightarrow> filesystem \<Rightarrow> string
     \<Rightarrow> error option \<times> filesystem \<times> string" where
  "commit_files sha1 blobDir [] fs written = (None, fs, written)"
| "commit_files sha1 blobDir (f # rest) fs written =
     (case open_read fs f of
        Inl e \<Rightarrow> (Some e, fs, written)
      | Inr content \<Rightarrow>
          (let fileSHA = sha1 (f @ content)
           in case open_write fs (os_path_join blobDir fileSHA) content of
                Inl e \<Rightarrow> (Some e, fs, written)
              | Inr fs' \<Rightarrow>
                  commit_files sha1 blobDir rest fs' (written @ f @ '':::'' @ fileSHA @ [LF])))"

definition record_header :: "string \<Rightarrow> string list \<Rightarrow> string" where
  "record_header lastCommitSHA message =
     ''HEAD:'' @ lastCommitSHA @ [LF]
     @ ''Commitment Message:'' @ [LF] @ ''====='' @ [LF]
     @ str_join [LF] message @ [LF] @ ''====='' @ [LF]"

text \<open>
  The commit record is opened (created or truncated) before the loop and holds what was
  written to it when it is closed, also when the loop ends with an exception.
\<close>

definition commit ::
  "(string \<Rightarrow> string) \<Rightarrow> (string \<Rightarrow> nat) \<Rightarrow> string \<Rightarrow> easyGit \<Rightarrow> string list
     \<Rightarrow> filesystem \<Rightarrow> outcome" where
  "commit sha1 h now r message fs =
     (let lg = [(DEBUG, ''function commit executed'')]
      in if \<not> os_path_exists fs (stagingFilePath r)
         then returns fs (lg @ [(ERROR, ''staging file not found'')])
         else case open_read fs (stagingFilePath r) of
           Inl e \<Rightarrow> raises e fs lg
         | Inr s \<Rightarrow>
         (let targetFilePaths = set_iter h (staged_lines s)
          in case open_read fs (headFile r) of
           Inl e \<Rightarrow> raises e fs lg
         | Inr lastCommitSHA \<Rightarrow>
         (let currentCommitSHA = sha1 (now @ stagingFilePath r)
          in case open_write fs (headFile r) currentCommitSHA of
           Inl e \<Rightarrow> raises e fs lg
         | Inr fs1 \<Rightarrow>
         (case os_mkdir fs1 (os_path_join (changeFolderPath r) currentCommitSHA) of
           Inl e \<Rightarrow> raises e fs1 lg
         | Inr fs2 \<Rightarrow>
         (let recordPath = os_path_join (commitFolderPath r) currentCommitSHA
          in case open_write fs2 recordPath [] of
           Inl e \<Rightarrow> raises e fs2 lg
         | Inr fs3 \<Rightarrow>
         (let (err, fs4, written) =
                commit_files sha1 (os_path_join (changeFolderPath r) currentCommitSHA)
                  targetFilePaths fs3 (record_header lastCommitSHA message)
          in \<lparr> raised = err, disk = AList.update recordPath (File written) fs4,
               logged = lg \<rparr>))))))"

section \<open>restore\<close>

text \<open>
  The loop of restore over the lines it takes for associations. The blob is opened
  first, then the destination is opened for writing (and so truncated), then the blob is
  read and written.
\<close>

fun restore_files :: "string \<Rightarrow> string list \<Rightarrow> filesystem \<Rightarrow> error option \<times> filesystem" where
  "restore_files blobDir [] fs = (None, fs)"
| "restore_files blobDir (fileSet # rest) fs =
     (case str_split '':::'' fileSet of
        [filePath, fileSHA] \<Rightarrow>
          (case os_makedirs fs (os_path_dirname filePath) of
             Inl e \<Rightarrow> (Some e, fs)
           | Inr fs1 \<Rightarrow>
               (case open_read fs1 (os_path_join blobDir fileSHA) of
                  Inl e \<Rightarrow> (Some e, fs1)
                | Inr opened \<Rightarrow>
                    (case open_write fs1 filePath [] of
                       Inl e \<Rightarrow> (Some e, fs1)
                     | Inr fs2 \<Rightarrow>
                         (case open_read fs2 (os_path_join blobDir fileSHA) of
                            Inl e \<Rightarrow> (Some e, fs2)
                          | Inr body \<Rightarrow>
                              restore_files blobDir rest
                                (AList.update filePath (File body) fs2)))))
      | _ \<Rightarrow> (Some ValueError, fs))"

definition restore :: "easyGit \<Rightarrow> string option \<Rightarrow> filesystem \<Rightarrow> outcome" where
  "restore r target0 fs =
     (let lg = [(DEBUG, ''function restore executed'')]
      in case (case target0 of
                 None \<Rightarrow>
                   (case open_read fs (headFile r) of
                      Inl e \<Rightarrow> Inl (raises e fs lg)
                    | Inr s \<Rightarrow>
                        if strip_nl s = []
                        then Inl (returns fs
                               (lg @ [(ERROR, ''There's no any recorded commitment, exiting...'')]))
                        else Inr (strip_nl s))
               | Some t \<Rightarrow> Inr t) of
           Inl out \<Rightarrow> out
         | Inr targetCommitSHA \<Rightarrow>
         (let targetCommitSHAFile = os_path_join (commitFolderPath r) targetCommitSHA
          in if \<not> os_path_exists fs targetCommitSHAFile
             then returns fs (lg @ [(ERROR, ''Target commitment not found, exiting...'')])
             else case open_read fs targetCommitSHAFile of
               Inl e \<Rightarrow> raises e fs lg
             | Inr s \<Rightarrow>
             (let content = map strip_nl (readlines s)
              in case list_index content ''====='' 0 of
               Inl e \<Rightarrow> raises e fs lg
             | Inr topIndex \<Rightarrow>
             (case list_index content ''====='' (topIndex + 1) of
               Inl e \<Rightarrow> raises e fs lg
             | Inr secondIndex \<Rightarrow>
             (let startIndex = topIndex + secondIndex;
                  (err, fs') =
                    restore_files (os_path_join (changeFolderPath r) targetCommitSHA)
                      (drop startIndex content) fs
              in \<lparr> raised = err, disk = fs', logged = lg \<rparr>)))))"

section \<open>search and status\<close>

lemma split_from_nonempty: "split_from sep cur s \<noteq> []"
  by (induction sep cur s rule: split_from.induct) auto

function search ::
  "easyGit \<Rightarrow> filesystem \<Rightarrow> string option \<Rightarrow> int \<Rightarrow> int
     \<Rightarrow> log_record list \<times> (error + string list option)" where
  "search r fs targetSHA depth maxDepth =
     (if depth \<ge> maxDepth then ([], Inr None)
      else case targetSHA of
        None \<Rightarrow>
          (case open_read fs (headFile r) of
             Inl e \<Rightarrow> ([], Inl e)
           | Inr s \<Rightarrow>
               (let targetCommitSHA = strip_nl s
                in if targetCommitSHA = []
                   then ([(ERROR, ''There's no any recorded commitment, exiting...'')], Inr None)
                   else search r fs (Some targetCommitSHA) 0 maxDepth))
      | Some target \<Rightarrow>
          (let targetSHAFile = os_path_join (commitFolderPath r) target
           in if \<not> os_path_exists fs targetSHAFile
              then ([(ERROR, ''Target commit doesn't exist, exiting...'')], Inr None)
              else case open_read fs targetSHAFile of
                Inl e \<Rightarrow> ([], Inl e)
              | Inr s \<Rightarrow>
                  (let lastCommitSHA = last (str_split '':'' (strip_nl (readline s)))
                   in case (if lastCommitSHA \<noteq> []
                            then search r fs (Some lastCommitSHA) (depth + 1) maxDepth
                            else ([], Inr None)) of
                        (lg, Inl e) \<Rightarrow> (lg, Inl e)
                      | (lg, Inr None) \<Rightarrow> (lg, Inr (Some [target]))
                      | (lg, Inr (Some recursion)) \<Rightarrow> (lg, Inr (Some (target # recursion))))))"
  by pat_completeness auto
termination
  by (relation "measures [\<lambda>(r, fs, t, d, m). if t = None then 1 else 0,
                          \<lambda>(r, fs, t, d, m). nat (m - d)]") auto

text \<open>
  status subscripts what search returned: on \<^verbatim>\<open>None\<close> that is a TypeError, on an empty
  list it would be an IndexError.
\<close>

definition status :: "easyGit \<Rightarrow> string option \<Rightarrow> int \<Rightarrow> filesystem \<Rightarrow> outcome" where
  "status r targetSHA maxDepth fs =
     (let lg = [(DEBUG, ''function status executed'')]
      in case search r fs targetSHA 0 maxDepth of
           (lg1, Inl e) \<Rightarrow> raises e fs (lg @ lg1)
         | (lg1, Inr None) \<Rightarrow> raises TypeError fs (lg @ lg1)
         | (lg1, Inr (Some result)) \<Rightarrow>
             (case result of
                [] \<Rightarrow> raises IndexError fs (lg @ lg1)
              | first # others \<Rightarrow>
                  returns fs (lg @ lg1 @ [(INFO, first @ '' <- HEAD'')]
                              @ map (\<lambda>SHA. (INFO, SHA)) others)))"

section \<open>An example repository\<close>

text \<open>
  A project at \<open>/p\<close> right after \<^verbatim>\<open>init\<close>, holding two files. The examples below run the
  operations on it.
\<close>

definition demo_repo :: easyGit where
  "demo_repo = easyGit_init ''/p'' (os_path_join ''/p'' ''.easygit'')"

definition demo_disk :: filesystem where
  "demo_disk =
     [(''/'', Dir), (''/p'', Dir), (''/p/.easygit'', Dir), (''/p/.easygit/changes'', Dir),
      (''/p/.easygit/commit'', Dir), (''/p/.easygit/log'', Dir),
      (''/p/.easygit/config.ini'', File ''[LOG]''),
      (''/p/.easygit/commit/HEAD'', File []), (''/p/.easygit/log/log.log'', File []),
      (''/p/a.txt'', File ''hello''), (''/p/b.txt'', File ''world'')]"

lemma suffix_single: "suffix [c] a \<longleftrightarrow> a \<noteq> [] \<and> last a = c"
  by (cases a rule: rev_cases) (auto simp add: suffix_def)

lemma demo_repo_paths:
  "repoPath demo_repo = ''/p/.easygit''"
  "currentPath demo_repo = ''/p''"
  "commitFolderPath demo_repo = ''/p/.easygit/commit''"
  "changeFolderPath demo_repo = ''/p/.easygit/changes''"
  "headFile demo_repo = ''/p/.easygit/commit/HEAD''"
  "stagingFilePath demo_repo = ''/p/.easygit/stagingCache''"
  by (simp_all add: demo_repo_def easyGit_init_def os_path_join_def stagingFilePath_def
        suffix_single)

section \<open>Missing state: commit without a staging file, restore of an unknown commit\<close>

text \<open>
  Claim C9. When the staging file does not exist, commit reports the error and returns
  without an exception, and the disk it leaves is the disk it found: HEAD is not
  rewritten, no blob directory is made and no commit record is written.
\<close>

theorem commit_without_staging:
  assumes "\<not> os_path_exists fs (stagingFilePath r)"
  shows "raised (commit sha1 h now r message fs) = None
       \<and> disk (commit sha1 h now r message fs) = fs
       \<and> (ERROR, ''staging file not found'') \<in> set (logged (commit sha1 h now r message fs))"
proof -
  from assms have "commit sha1 h now r message fs
      = returns fs ([(DEBUG, ''function commit executed'')] @ [(ERROR, ''staging file not found'')])"
    by (simp add: commit_def)
  then show ?thesis by (simp add: returns_def)
qed

theorem commit_without_staging_witness:
  "\<not> os_path_exists demo_disk (stagingFilePath demo_repo)
   \<and> raised (commit id (\<lambda>_. 0) ''20260101 10-00-00'' demo_repo [''first''] demo_disk) = None
   \<and> disk (commit id (\<lambda>_. 0) ''20260101 10-00-00'' demo_repo [''first''] demo_disk) = demo_disk"
proof -
  have h: "\<not> os_path_exists demo_disk (stagingFilePath demo_repo)"
    by (simp add: demo_repo_paths os_path_exists_def demo_disk_def)
  from commit_without_staging [OF h] h show ?thesis by simp
qed

text \<open>
  Claim C8. When no entry exists at the place of the commit record that a target digest
  names, restore of that target reports that the commit was not found and returns
  without an exception, and the disk it leaves is the disk it found: the working
  directory, HEAD, the staging file, the commit records and the blobs are as before.
\<close>

theorem restore_unknown_target:
  assumes "\<not> os_path_exists fs (os_path_join (commitFolderPath r) target)"
  shows "raised (restore r (Some target) fs) = None
       \<and> disk (restore r (Some target) fs) = fs
       \<and> (ERROR, ''Target commitment not found, exiting...'')
            \<in> set (logged (restore r (Some target) fs))"
proof -
  from assms have "restore r (Some target) fs
      = returns fs ([(DEBUG, ''function restore executed'')]
                    @ [(ERROR, ''Target commitment not found, exiting...'')])"
    by (simp add: restore_def)
  then show ?thesis by (simp add: returns_def)
qed

theorem restore_unknown_target_witness:
  "\<not> os_path_exists demo_disk
        (os_path_join (commitFolderPath demo_repo) (concat (replicate 5 ''deadbeef'')))
   \<and> raised (restore demo_repo (Some (concat (replicate 5 ''deadbeef''))) demo_disk) = None
   \<and> disk (restore demo_repo (Some (concat (replicate 5 ''deadbeef''))) demo_disk) = demo_disk
   \<and> (ERROR, ''Target commitment not found, exiting...'')
        \<in> set (logged (restore demo_repo (Some (concat (replicate 5 ''deadbeef''))) demo_disk))"
proof -
  have h: "\<not> os_path_exists demo_disk
        (os_path_join (commitFolderPath demo_repo) (concat (replicate 5 ''deadbeef'')))"
    by (simp add: demo_repo_paths os_path_exists_def demo_disk_def os_path_join_def
          suffix_single eval_nat_numeral)
  from restore_unknown_target [OF h] h show ?thesis by simp
qed

section \<open>The history chain\<close>

declare search.simps [simp del]
declare os_makedirs.simps [simp del]
declare getAllChildFiles.simps [simp del]

text \<open>
  The parent pointer of a commit record as search reads it: what follows the last colon
  of the record's first line.
\<close>

definition parent_pointer :: "easyGit \<Rightarrow> filesystem \<Rightarrow> string \<Rightarrow> string option" where
  "parent_pointer r fs d =
     (case open_read fs (os_path_join (commitFolderPath r) d) of
        Inl _ \<Rightarrow> None
      | Inr s \<Rightarrow> Some (last (str_split '':'' (strip_nl (readline s)))))"

text \<open>
  A chain of commits, most recent first: each record is readable and points to the next
  digest, and the last one has an empty parent pointer.
\<close>

fun history_chain :: "easyGit \<Rightarrow> filesystem \<Rightarrow> string list \<Rightarrow> bool" where
  "history_chain r fs [] = False"
| "history_chain r fs [d] = (parent_pointer r fs d = Some [])"
| "history_chain r fs (d # e # rest) =
     (parent_pointer r fs d = Some e \<and> e \<noteq> [] \<and> history_chain r fs (e # rest))"

text \<open>The state in which search has nothing to return.\<close>

definition no_history :: "easyGit \<Rightarrow> filesystem \<Rightarrow> string option \<Rightarrow> bool" where
  "no_history r fs targetSHA =
     (case targetSHA of
        None \<Rightarrow> (case open_read fs (headFile r) of Inl _ \<Rightarrow> False | Inr s \<Rightarrow> strip_nl s = [])
      | Some target \<Rightarrow> \<not> os_path_exists fs (os_path_join (commitFolderPath r) target))"

lemma parent_pointer_exists:
  "parent_pointer r fs d = Some e \<Longrightarrow> os_path_exists fs (os_path_join (commitFolderPath r) d)"
  by (auto simp add: parent_pointer_def open_read_def os_path_exists_def
      split: sum.splits option.splits)

lemma search_at_cap: "maxDepth \<le> depth \<Longrightarrow> search r fs t depth maxDepth = ([], Inr None)"
  by (subst search.simps) simp

lemma search_root:
  assumes "parent_pointer r fs d = Some []" and "depth < maxDepth"
  shows "search r fs (Some d) depth maxDepth = ([], Inr (Some [d]))"
proof -
  from assms(1) obtain s where s: "open_read fs (os_path_join (commitFolderPath r) d) = Inr s"
      and l: "last (str_split '':'' (strip_nl (readline s))) = []"
    by (auto simp add: parent_pointer_def split: sum.splits)
  from assms(1) have ex: "os_path_exists fs (os_path_join (commitFolderPath r) d)"
    by (rule parent_pointer_exists)
  show ?thesis using assms(2) s l ex by (subst search.simps) simp
qed

lemma search_step:
  assumes "parent_pointer r fs d = Some e" and "e \<noteq> []" and "depth < maxDepth"
  shows "search r fs (Some d) depth maxDepth =
           (case search r fs (Some e) (depth + 1) maxDepth of
              (lg, Inl err) \<Rightarrow> (lg, Inl err)
            | (lg, Inr None) \<Rightarrow> (lg, Inr (Some [d]))
            | (lg, Inr (Some recursion)) \<Rightarrow> (lg, Inr (Some (d # recursion))))"
proof -
  from assms(1) obtain s where s: "open_read fs (os_path_join (commitFolderPath r) d) = Inr s"
      and l: "last (str_split '':'' (strip_nl (readline s))) = e"
    by (auto simp add: parent_pointer_def split: sum.splits)
  from assms(1) have ex: "os_path_exists fs (os_path_join (commitFolderPath r) d)"
    by (rule parent_pointer_exists)
  show ?thesis using assms(2,3) s l ex
    by (subst search.simps) simp
qed

lemma search_chain:
  "history_chain r fs ds \<Longrightarrow> depth < maxDepth \<Longrightarrow>
   search r fs (Some (hd ds)) depth maxDepth = ([], Inr (Some (take (nat (maxDepth - depth)) ds)))"
proof (induction r fs ds arbitrary: depth rule: history_chain.induct)
  case (1 r fs)
  then show ?case by simp
next
  case (2 r fs d)
  then have "parent_pointer r fs d = Some []" by simp
  from search_root [OF this "2.prems"(2)] "2.prems"(2) show ?case
    by (cases "nat (maxDepth - depth)") simp_all
next
  case (3 r fs d e rest)
  then have p: "parent_pointer r fs d = Some e" and e: "e \<noteq> []"
    and c: "history_chain r fs (e # rest)" by simp_all
  note step = search_step [OF p e "3.prems"(2)]
  show ?case
  proof (cases "depth + 1 < maxDepth")
    case True
    from "3.IH" [OF c True]
    have "search r fs (Some e) (depth + 1) maxDepth
            = ([], Inr (Some (take (nat (maxDepth - (depth + 1))) (e # rest))))" by simp
    moreover from True have "nat (maxDepth - depth) = Suc (nat (maxDepth - (depth + 1)))"
      by simp
    ultimately show ?thesis using step by simp
  next
    case False
    then have "search r fs (Some e) (depth + 1) maxDepth = ([], Inr None)"
      by (simp add: search_at_cap)
    moreover from False "3.prems"(2) have "nat (maxDepth - depth) = Suc 0" by simp
    ultimately show ?thesis using step by simp
  qed
qed

lemma search_from_head:
  assumes "open_read fs (headFile r) = Inr s" and "strip_nl s \<noteq> []" and "0 < maxDepth"
  shows "search r fs None 0 maxDepth = search r fs (Some (strip_nl s)) 0 maxDepth"
  using assms by (subst search.simps) (simp add: Let_def)

lemma search_some_nonempty:
  "search r fs (Some t) depth maxDepth = (lg, Inr (Some xs)) \<Longrightarrow> xs \<noteq> []"
  by (subst (asm) search.simps)
     (auto simp add: Let_def split: if_splits sum.splits option.splits prod.splits)

lemma search_nonempty:
  assumes "search r fs targetSHA 0 maxDepth = (lg, Inr (Some xs))"
  shows "xs \<noteq> []"
proof (cases targetSHA)
  case (Some t)
  with assms show ?thesis using search_some_nonempty by blast
next
  case None
  show ?thesis
  proof (cases "0 < maxDepth")
    case False
    then show ?thesis using assms by (simp add: search_at_cap)
  next
    case True
    show ?thesis
    proof (cases "open_read fs (headFile r)")
      case (Inl e)
      then show ?thesis using assms None True by (subst (asm) search.simps) simp
    next
      case (Inr s)
      show ?thesis
      proof (cases "strip_nl s = []")
        case True
        then show ?thesis using assms None Inr \<open>0 < maxDepth\<close>
          by (subst (asm) search.simps) (simp add: Let_def)
      next
        case False
        from search_from_head [OF Inr False \<open>0 < maxDepth\<close>] assms None
        show ?thesis using search_some_nonempty by metis
      qed
    qed
  qed
qed

lemma search_no_history:
  assumes "no_history r fs targetSHA"
  shows "snd (search r fs targetSHA 0 maxDepth) = Inr None"
proof (cases "0 < maxDepth")
  case False
  then show ?thesis by (simp add: search_at_cap)
next
  case True
  then show ?thesis using assms
    by (subst search.simps)
       (auto simp add: no_history_def Let_def split: option.splits sum.splits)
qed

text \<open>
  A disk with a chain of three commits: HEAD names the third, the third points to the
  second and the second to the first, which has no parent.
\<close>

definition digest_one :: string where
  "digest_one = ''1111111111111111111111111111111111111111''"

definition digest_two :: string where
  "digest_two = ''2222222222222222222222222222222222222222''"

definition digest_three :: string where
  "digest_three = ''3333333333333333333333333333333333333333''"

definition chain_disk :: filesystem where
  "chain_disk =
     [(''/'', Dir), (''/p'', Dir), (''/p/.easygit'', Dir), (''/p/.easygit/changes'', Dir),
      (''/p/.easygit/commit'', Dir), (''/p/.easygit/log'', Dir),
      (''/p/.easygit/commit/HEAD'', File digest_three),
      (''/p/.easygit/log/log.log'', File []),
      (''/p/.easygit/stagingCache'', File []),
      (os_path_join ''/p/.easygit/commit'' digest_one, File (record_header [] [''first''])),
      (os_path_join ''/p/.easygit/commit'' digest_two,
         File (record_header digest_one [''second''])),
      (os_path_join ''/p/.easygit/commit'' digest_three,
         File (record_header digest_two [''third'']))]"

lemma chain_disk_chain:
  "history_chain demo_repo chain_disk [digest_three, digest_two, digest_one]"
  by (simp add: parent_pointer_def demo_repo_paths chain_disk_def digest_one_def
        digest_two_def digest_three_def os_path_join_def suffix_single open_read_def
        record_header_def readline_def strip_nl_def str_split_def)

lemma chain_disk_head:
  "open_read chain_disk (headFile demo_repo) = Inr digest_three"
  by (simp add: demo_repo_paths chain_disk_def digest_three_def os_path_join_def
        suffix_single open_read_def)

lemma chain_disk_search:
  "search demo_repo chain_disk None 0 5
     = ([], Inr (Some [digest_three, digest_two, digest_one]))"
proof -
  have "strip_nl digest_three = digest_three" "digest_three \<noteq> []"
    by (simp_all add: strip_nl_def digest_three_def)
  with search_from_head [OF chain_disk_head, of 5]
       search_chain [OF chain_disk_chain, of 0 5]
  show ?thesis by simp
qed

text \<open>
  Claim C5. On a chain of commits that HEAD names, search follows one parent pointer per
  level, from depth 0, and returns the chain's digests, most recent first, up to the
  root or up to \<open>maxDepth\<close> digests, whichever comes first. Reaching the cap is not an
  error: nothing is logged and nothing is raised. With \<open>maxDepth = 1\<close> on a chain of three
  commits the result is the one digest HEAD names.
\<close>

theorem search_depth_cap:
  assumes "history_chain r fs ds"
    and "open_read fs (headFile r) = Inr s" and "strip_nl s = hd ds" and "hd ds \<noteq> []"
    and "0 < maxDepth"
  shows "search r fs None 0 maxDepth = ([], Inr (Some (take (nat maxDepth) ds)))
       \<and> search r fs (Some (hd ds)) 0 maxDepth = ([], Inr (Some (take (nat maxDepth) ds)))"
proof -
  have a: "search r fs (Some (hd ds)) 0 maxDepth = ([], Inr (Some (take (nat maxDepth) ds)))"
    using search_chain [OF assms(1) assms(5)] by simp
  have "search r fs None 0 maxDepth = search r fs (Some (strip_nl s)) 0 maxDepth"
    using assms(2,3,4,5) by (intro search_from_head) simp_all
  with a assms(3) show ?thesis by simp
qed

theorem search_depth_cap_witness:
  "history_chain demo_repo chain_disk [digest_three, digest_two, digest_one]
   \<and> length [digest_three, digest_two, digest_one] = 3
   \<and> search demo_repo chain_disk None 0 1 = ([], Inr (Some [digest_three]))
   \<and> search demo_repo chain_disk None 0 5
       = ([], Inr (Some [digest_three, digest_two, digest_one]))"
proof -
  have s: "strip_nl digest_three = hd [digest_three, digest_two, digest_one]"
    and n: "hd [digest_three, digest_two, digest_one] \<noteq> []"
    by (simp_all add: strip_nl_def digest_three_def)
  from search_depth_cap [OF chain_disk_chain chain_disk_head s n, of 1]
       search_depth_cap [OF chain_disk_chain chain_disk_head s n, of 5]
       chain_disk_chain
  show ?thesis by simp
qed

text \<open>
  Claim C10. When HEAD is empty and no target is given, or when no entry exists at the
  place of the target's commit record, search returns \<^verbatim>\<open>None\<close>, and status, which
  subscripts that result, ends with a TypeError instead of returning. status returns
  without an exception exactly when search returns a non-empty list.
\<close>

theorem status_needs_history:
  "(no_history r fs targetSHA \<longrightarrow>
      snd (search r fs targetSHA 0 maxDepth) = Inr None
      \<and> raised (status r targetSHA maxDepth fs) = Some TypeError)
   \<and> (raised (status r targetSHA maxDepth fs) = None \<longleftrightarrow>
        (\<exists>xs. xs \<noteq> [] \<and> snd (search r fs targetSHA 0 maxDepth) = Inr (Some xs)))"
proof (intro conjI impI)
  assume "no_history r fs targetSHA"
  then show n: "snd (search r fs targetSHA 0 maxDepth) = Inr None"
    by (rule search_no_history)
  then show "raised (status r targetSHA maxDepth fs) = Some TypeError"
    by (cases "search r fs targetSHA 0 maxDepth") (simp add: status_def raises_def)
next
  obtain lg res where sr: "search r fs targetSHA 0 maxDepth = (lg, res)"
    by (cases "search r fs targetSHA 0 maxDepth")
  show "raised (status r targetSHA maxDepth fs) = None \<longleftrightarrow>
        (\<exists>xs. xs \<noteq> [] \<and> snd (search r fs targetSHA 0 maxDepth) = Inr (Some xs))"
  proof (cases res)
    case (Inl e)
    with sr show ?thesis by (simp add: status_def raises_def)
  next
    case (Inr v)
    show ?thesis
    proof (cases v)
      case None
      with sr Inr show ?thesis by (simp add: status_def raises_def)
    next
      case (Some xs)
      with sr Inr have "xs \<noteq> []" using search_nonempty by blast
      with sr Inr Some show ?thesis
        by (cases xs) (simp_all add: status_def raises_def returns_def)
    qed
  qed
qed

theorem status_needs_history_witness:
  "no_history demo_repo demo_disk None
   \<and> snd (search demo_repo demo_disk None 0 5) = Inr None
   \<and> raised (status demo_repo None 5 demo_disk) = Some TypeError
   \<and> no_history demo_repo demo_disk (Some (concat (replicate 5 ''deadbeef'')))
   \<and> raised (status demo_repo (Some (concat (replicate 5 ''deadbeef''))) 5 demo_disk)
       = Some TypeError
   \<and> snd (search demo_repo chain_disk None 0 5)
       = Inr (Some [digest_three, digest_two, digest_one])
   \<and> raised (status demo_repo None 5 chain_disk) = None"
proof -
  have a: "no_history demo_repo demo_disk None"
    by (simp add: no_history_def demo_repo_paths demo_disk_def open_read_def strip_nl_def)
  have b: "no_history demo_repo demo_disk (Some (concat (replicate 5 ''deadbeef'')))"
    by (simp add: no_history_def demo_repo_paths os_path_exists_def demo_disk_def
          os_path_join_def suffix_single eval_nat_numeral)
  have c: "search demo_repo chain_disk None 0 5
             = ([], Inr (Some [digest_three, digest_two, digest_one]))"
    by (rule chain_disk_search)
  from a b c
       status_needs_history [of demo_repo demo_disk None 5]
       status_needs_history [of demo_repo demo_disk "Some (concat (replicate 5 ''deadbeef''))" 5]
       status_needs_history [of demo_repo chain_disk None 5]
  show ?thesis by simp
qed

section \<open>Lines of text files\<close>

text \<open>A string that can stand on a line of its own: it has no line break in it.\<close>

definition line_safe :: "string \<Rightarrow> bool" where
  "line_safe p = (LF \<notin> set p \<and> CR \<notin> set p)"

lemma universal_newlines_id: "CR \<notin> set s \<Longrightarrow> universal_newlines s = s"
  by (induction s rule: universal_newlines.induct) auto

lemma universal_newlines_no_CR: "CR \<notin> set (universal_newlines s)"
  by (induction s rule: universal_newlines.induct) auto

lemma readlines_line:
  "LF \<notin> set l \<Longrightarrow> readlines (l @ LF # rest) = (l @ [LF]) # readlines rest"
  by (induction l) auto

lemma dropWhile_none: "\<forall>x\<in>set xs. \<not> P x \<Longrightarrow> dropWhile P xs = xs"
  by (cases xs) auto

lemma strip_nl_id: "LF \<notin> set l \<Longrightarrow> strip_nl l = l"
proof -
  assume a: "LF \<notin> set l"
  have "dropWhile (\<lambda>c. c = LF) l = l" by (rule dropWhile_none) (use a in auto)
  moreover have "dropWhile (\<lambda>c. c = LF) (rev l) = rev l"
    by (rule dropWhile_none) (use a in auto)
  ultimately show ?thesis by (simp add: strip_nl_def)
qed

lemma strip_nl_line: "LF \<notin> set l \<Longrightarrow> strip_nl (l @ [LF]) = l"
proof -
  assume a: "LF \<notin> set l"
  have r: "dropWhile (\<lambda>c. c = LF) (rev l) = rev l"
    by (rule dropWhile_none) (use a in auto)
  show ?thesis
  proof (cases l)
    case Nil
    then show ?thesis by (simp add: strip_nl_def)
  next
    case (Cons x xs)
    with a have "dropWhile (\<lambda>c. c = LF) (l @ [LF]) = l @ [LF]" by auto
    with r show ?thesis by (simp add: strip_nl_def)
  qed
qed

lemma write_lines_Cons: "write_lines (p # ps) = p @ LF # write_lines ps"
  by (simp add: write_lines_def)

lemma staged_lines_write_lines:
  "\<forall>p\<in>set ps. LF \<notin> set p \<Longrightarrow> staged_lines (write_lines ps) = ps"
proof (induction ps)
  case Nil
  then show ?case by (simp add: staged_lines_def write_lines_def)
next
  case (Cons p ps)
  then have "staged_lines (write_lines ps) = ps" and "LF \<notin> set p" by simp_all
  then show ?case
    by (simp add: write_lines_Cons staged_lines_def readlines_line strip_nl_line)
qed

lemma write_lines_no_CR: "\<forall>p\<in>set ps. CR \<notin> set p \<Longrightarrow> CR \<notin> set (write_lines ps)"
  by (induction ps) (auto simp add: write_lines_def)

lemma readlines_shape:
  "l \<in> set (readlines s) \<Longrightarrow> LF \<notin> set (butlast l) \<and> set l \<subseteq> set s"
proof (induction s arbitrary: l)
  case Nil
  then show ?case by simp
next
  case (Cons c cs)
  show ?case
  proof (cases "c = LF")
    case True
    with Cons show ?thesis by auto
  next
    case False
    show ?thesis
    proof (cases "readlines cs")
      case Nil
      with Cons.prems False show ?thesis by simp
    next
      case (Cons l0 ls)
      from Cons.IH [of l0] Cons have l0: "LF \<notin> set (butlast l0) \<and> set l0 \<subseteq> set cs" by simp
      from Cons.prems False Cons have "l = c # l0 \<or> l \<in> set ls" by simp
      then show ?thesis
      proof
        assume "l = c # l0"
        with l0 False show ?thesis by (cases l0) auto
      next
        assume "l \<in> set ls"
        with Cons.IH [of l] Cons show ?thesis by auto
      qed
    qed
  qed
qed

lemma strip_nl_subset: "set (strip_nl l) \<subseteq> set l"
proof
  fix x
  assume "x \<in> set (strip_nl l)"
  then have "x \<in> set (dropWhile (\<lambda>c. c = LF) (rev (dropWhile (\<lambda>c. c = LF) l)))"
    by (simp add: strip_nl_def)
  then have "x \<in> set (rev (dropWhile (\<lambda>c. c = LF) l))" by (rule set_dropWhileD)
  then have "x \<in> set (dropWhile (\<lambda>c. c = LF) l)" by simp
  then show "x \<in> set l" by (rule set_dropWhileD)
qed

lemma strip_nl_no_LF: "LF \<notin> set (butlast l) \<Longrightarrow> LF \<notin> set (strip_nl l)"
proof (cases l rule: rev_cases)
  case Nil
  then show ?thesis by (simp add: strip_nl_def)
next
  case (snoc ys y)
  assume "LF \<notin> set (butlast l)"
  with snoc have ys: "LF \<notin> set ys" by simp
  show ?thesis
  proof (cases "y = LF")
    case True
    with snoc ys show ?thesis by (simp add: strip_nl_line)
  next
    case False
    with snoc ys have "LF \<notin> set l" by simp
    then show ?thesis by (simp add: strip_nl_id)
  qed
qed

lemma staged_lines_safe:
  assumes "CR \<notin> set s" and "l \<in> set (staged_lines s)"
  shows "line_safe l"
proof -
  from assms(2) obtain l0 where l0: "l0 \<in> set (readlines s)" and l: "l = strip_nl l0"
    by (auto simp add: staged_lines_def)
  from readlines_shape [OF l0] have "LF \<notin> set (butlast l0)" and "set l0 \<subseteq> set s" by simp_all
  with assms(1) strip_nl_subset [of l0] strip_nl_no_LF [of l0] l show ?thesis
    by (auto simp add: line_safe_def)
qed

lemma set_set_iter: "set (set_iter h xs) = set xs"
  by (simp add: set_iter_def)


lemma str_in_sublist: "str_in sub s = sublist sub s"
  by (induction s) (simp_all add: sublist_Cons_right)

lemma str_in_append: "str_in sub a \<Longrightarrow> str_in sub (a @ b)"
  unfolding str_in_sublist by (metis sublist_appendI append.assoc sublist_def)

section \<open>The staging set\<close>

text \<open>
  The persisted staging set: the lines of the staging file as add, remove and commit
  read them; no readable staging file means the empty set.
\<close>

definition staging_lines :: "easyGit \<Rightarrow> filesystem \<Rightarrow> string list" where
  "staging_lines r fs =
     (case open_read fs (stagingFilePath r) of Inl _ \<Rightarrow> [] | Inr s \<Rightarrow> staged_lines s)"

lemma open_read_update_same:
  "open_read (AList.update p (File c) fs) p = Inr (universal_newlines c)"
  by (simp add: open_read_def update_conv')

lemma open_read_update_other: "q \<noteq> p \<Longrightarrow> open_read (AList.update p e fs) q = open_read fs q"
  by (simp add: open_read_def update_conv')

lemma exists_update:
  "os_path_exists (AList.update p e fs) q \<longleftrightarrow> q = p \<or> os_path_exists fs q"
  by (simp add: os_path_exists_def update_conv')


lemma open_write_result:
  "open_write fs p c = Inr fs' \<Longrightarrow>
   fs' = AList.update p (File c) fs \<and> \<not> os_path_isdir fs p
   \<and> os_path_isdir fs (os_path_dirname p)"
  by (auto simp add: open_write_def split: if_splits)


lemma staging_lines_safe: "l \<in> set (staging_lines r fs) \<Longrightarrow> line_safe l"
  by (auto simp add: staging_lines_def open_read_def
      split: sum.splits option.splits entry.splits
      intro: staged_lines_safe [OF universal_newlines_no_CR])

lemma staging_lines_written:
  assumes "open_write fs (stagingFilePath r) (write_lines ps) = Inr fs'"
    and "\<forall>p\<in>set ps. line_safe p"
  shows "staging_lines r fs' = ps"
proof -
  from open_write_result [OF assms(1)]
  have "fs' = AList.update (stagingFilePath r) (File (write_lines ps)) fs" by simp
  moreover from assms(2) have "CR \<notin> set (write_lines ps)"
    by (intro write_lines_no_CR) (simp add: line_safe_def)
  moreover from assms(2) have "staged_lines (write_lines ps) = ps"
    by (intro staged_lines_write_lines) (simp add: line_safe_def)
  ultimately show ?thesis
    by (simp add: staging_lines_def open_read_update_same universal_newlines_id)
qed

text \<open>What a call of add that returns has written.\<close>

definition add_written :: "(string \<Rightarrow> nat) \<Rightarrow> easyGit \<Rightarrow> filesystem \<Rightarrow> string list \<Rightarrow> string list" where
  "add_written h r fs filePaths =
     filter (\<lambda>f. \<not> str_in ''.easygit'' f) (set_iter h (filePaths @ staging_lines r fs))"

lemma add_disk:
  assumes "get_paths ''Added'' r fs names = Inr (fps, lg)"
    and "raised (add h r names fs) = None"
  shows "open_write fs (stagingFilePath r) (write_lines (add_written h r fs fps))
           = Inr (disk (add h r names fs))"
proof (cases "os_path_exists fs (stagingFilePath r)")
  case False
  then have "open_read fs (stagingFilePath r) = Inl FileNotFoundError"
    by (simp add: os_path_exists_def open_read_def)
  then have "staging_lines r fs = []" by (simp add: staging_lines_def)
  with assms False show ?thesis
    by (auto simp add: add_def add_written_def raises_def returns_def Let_def split: sum.splits)
next
  case True
  show ?thesis
  proof (cases "open_read fs (stagingFilePath r)")
    case (Inl e)
    with assms True show ?thesis by (simp add: add_def raises_def Let_def)
  next
    case (Inr s)
    then have "staging_lines r fs = staged_lines s" by (simp add: staging_lines_def)
    with assms True Inr show ?thesis
      by (auto simp add: add_def add_written_def raises_def returns_def Let_def split: sum.splits)
  qed
qed

lemma add_written_safe:
  assumes "\<forall>p\<in>set fps. line_safe p"
  shows "\<forall>p\<in>set (add_written h r fs fps). line_safe p"
  using assms staging_lines_safe by (auto simp add: add_written_def set_set_iter)

lemma add_staging_lines:
  assumes "get_paths ''Added'' r fs names = Inr (fps, lg)"
    and "raised (add h r names fs) = None"
    and "\<forall>p\<in>set fps. line_safe p"
  shows "staging_lines r (disk (add h r names fs)) = add_written h r fs fps"
  using staging_lines_written [OF add_disk [OF assms(1,2)] add_written_safe [OF assms(3)]] .

text \<open>
  Claim C2, as the code has it. For a call of add that returns, with resolved paths free
  of line breaks, the persisted staging set is the union of the previously persisted set
  and the resolved paths without the paths in which the text \<open>.easygit\<close> occurs. The
  metadata directory's own path contains that text, so no path under it is retained;
  every other path of the union without that text is.
\<close>

theorem add_persists_union:
  assumes "get_paths ''Added'' r fs names = Inr (fps, lg)"
    and "raised (add h r names fs) = None"
    and "\<forall>p\<in>set fps. line_safe p"
    and "str_in ''.easygit'' (repoPath r)"
  shows "set (staging_lines r (disk (add h r names fs)))
           = {p \<in> set (staging_lines r fs) \<union> set fps. \<not> str_in ''.easygit'' p}
       \<and> (\<forall>p. prefix (repoPath r @ ''/'') p
              \<longrightarrow> p \<notin> set (staging_lines r (disk (add h r names fs))))"
proof -
  have eq: "set (staging_lines r (disk (add h r names fs)))
           = {p \<in> set (staging_lines r fs) \<union> set fps. \<not> str_in ''.easygit'' p}"
    unfolding add_staging_lines [OF assms(1,2,3)]
    by (auto simp add: add_written_def set_set_iter)
  have "str_in ''.easygit'' p" if "prefix (repoPath r @ ''/'') p" for p
  proof -
    from that obtain x where "p = repoPath r @ (''/'' @ x)" by (auto simp add: prefix_def)
    with assms(4) show ?thesis using str_in_append by metis
  qed
  with eq show ?thesis by auto
qed

text \<open>
  The example project with one more file, whose name contains the text \<open>.easygit\<close> but
  which lies outside the metadata directory.
\<close>

definition notes_disk :: filesystem where
  "notes_disk = (''/p/notes.easygit.txt'', File ''memo'') # demo_disk"

theorem add_persists_union_witness:
  "get_paths ''Added'' demo_repo notes_disk [''a.txt'', ''.easygit/config.ini'']
     = Inr ([''/p/a.txt'', ''/p/.easygit/config.ini''],
            [(DEBUG, ''Added file: /p/a.txt''),
             (DEBUG, ''Added file: /p/.easygit/config.ini'')])
   \<and> raised (add (\<lambda>_. 0) demo_repo [''a.txt'', ''.easygit/config.ini''] notes_disk) = None
   \<and> line_safe ''/p/a.txt'' \<and> line_safe ''/p/.easygit/config.ini''
   \<and> str_in ''.easygit'' (repoPath demo_repo)
   \<and> set (staging_lines demo_repo
            (disk (add (\<lambda>_. 0) demo_repo [''a.txt'', ''.easygit/config.ini''] notes_disk)))
       = {p \<in> set (staging_lines demo_repo notes_disk)
                 \<union> set [''/p/a.txt'', ''/p/.easygit/config.ini''].
            \<not> str_in ''.easygit'' p}
   \<and> prefix (repoPath demo_repo @ ''/'') ''/p/.easygit/config.ini''
   \<and> ''/p/.easygit/config.ini''
        \<notin> set (staging_lines demo_repo
                 (disk (add (\<lambda>_. 0) demo_repo [''a.txt'', ''.easygit/config.ini''] notes_disk)))
   \<and> staging_lines demo_repo
        (disk (add (\<lambda>_. 0) demo_repo [''a.txt'', ''.easygit/config.ini''] notes_disk))
       = [''/p/a.txt'']"
proof -
  have h1: "get_paths ''Added'' demo_repo notes_disk [''a.txt'', ''.easygit/config.ini'']
     = Inr ([''/p/a.txt'', ''/p/.easygit/config.ini''],
            [(DEBUG, ''Added file: /p/a.txt''),
             (DEBUG, ''Added file: /p/.easygit/config.ini'')])"
    by code_simp
  have h2: "raised (add (\<lambda>_. 0) demo_repo [''a.txt'', ''.easygit/config.ini''] notes_disk)
              = None"
    by code_simp
  have h3: "\<forall>p\<in>set [''/p/a.txt'', ''/p/.easygit/config.ini'']. line_safe p"
    by code_simp
  have h4: "str_in ''.easygit'' (repoPath demo_repo)"
    by code_simp
  have h5: "prefix (repoPath demo_repo @ ''/'') ''/p/.easygit/config.ini''"
    by code_simp
  have h6: "staging_lines demo_repo
        (disk (add (\<lambda>_. 0) demo_repo [''a.txt'', ''.easygit/config.ini''] notes_disk))
       = [''/p/a.txt'']"
    by code_simp
  from add_persists_union [OF h1 h2 h3 h4] h1 h2 h3 h4 h5 h6 show ?thesis by simp
qed

text \<open>The example project with a file whose name holds a line feed.\<close>

definition broken_name_disk :: filesystem where
  "broken_name_disk = (''/p/a'' @ [LF] @ ''b'', File ''text'') # demo_disk"

text \<open>
  Claim C2, as stated, fails: \<open>/p/notes.easygit.txt\<close> is a resolved path that is not under
  the metadata directory \<open>/p/.easygit\<close>, and add does not retain it. It also fails for a
  resolved path with a line feed in it, which is not under the metadata directory
  either: the staging set then holds its two halves and not the path.
\<close>

theorem add_drops_marked_path:
  "raised (add (\<lambda>_. 0) demo_repo [''notes.easygit.txt''] notes_disk) = None
   \<and> get_paths ''Added'' demo_repo notes_disk [''notes.easygit.txt'']
       = Inr ([''/p/notes.easygit.txt''], [(DEBUG, ''Added file: /p/notes.easygit.txt'')])
   \<and> \<not> prefix (repoPath demo_repo @ ''/'') ''/p/notes.easygit.txt''
   \<and> ''/p/notes.easygit.txt''
        \<notin> set (staging_lines demo_repo
                 (disk (add (\<lambda>_. 0) demo_repo [''notes.easygit.txt''] notes_disk)))
   \<and> set (staging_lines demo_repo
            (disk (add (\<lambda>_. 0) demo_repo [''notes.easygit.txt''] notes_disk)))
       \<noteq> {p \<in> set (staging_lines demo_repo notes_disk) \<union> set [''/p/notes.easygit.txt''].
             \<not> prefix (repoPath demo_repo @ ''/'') p}
   \<and> raised (add (\<lambda>_. 0) demo_repo [''a'' @ [LF] @ ''b''] broken_name_disk) = None
   \<and> get_paths ''Added'' demo_repo broken_name_disk [''a'' @ [LF] @ ''b'']
       = Inr ([''/p/a'' @ [LF] @ ''b''], [(DEBUG, ''Added file: /p/a'' @ [LF] @ ''b'')])
   \<and> \<not> prefix (repoPath demo_repo @ ''/'') (''/p/a'' @ [LF] @ ''b'')
   \<and> staging_lines demo_repo
        (disk (add (\<lambda>_. 0) demo_repo [''a'' @ [LF] @ ''b''] broken_name_disk))
       = [''/p/a'', ''b'']"
proof -
  have a: "raised (add (\<lambda>_. 0) demo_repo [''notes.easygit.txt''] notes_disk) = None"
    by code_simp
  have b: "get_paths ''Added'' demo_repo notes_disk [''notes.easygit.txt'']
       = Inr ([''/p/notes.easygit.txt''], [(DEBUG, ''Added file: /p/notes.easygit.txt'')])"
    by code_simp
  have c: "\<not> prefix (repoPath demo_repo @ ''/'') ''/p/notes.easygit.txt''"
    by code_simp
  have d: "staging_lines demo_repo
            (disk (add (\<lambda>_. 0) demo_repo [''notes.easygit.txt''] notes_disk)) = []"
    by code_simp
  have e: "raised (add (\<lambda>_. 0) demo_repo [''a'' @ [LF] @ ''b''] broken_name_disk) = None"
    and f: "get_paths ''Added'' demo_repo broken_name_disk [''a'' @ [LF] @ ''b'']
       = Inr ([''/p/a'' @ [LF] @ ''b''], [(DEBUG, ''Added file: /p/a'' @ [LF] @ ''b'')])"
    and g: "\<not> prefix (repoPath demo_repo @ ''/'') (''/p/a'' @ [LF] @ ''b'')"
    and h: "staging_lines demo_repo
        (disk (add (\<lambda>_. 0) demo_repo [''a'' @ [LF] @ ''b''] broken_name_disk))
       = [''/p/a'', ''b'']"
    by code_simp+
  from c have "''/p/notes.easygit.txt''
      \<in> {p \<in> set (staging_lines demo_repo notes_disk) \<union> set [''/p/notes.easygit.txt''].
             \<not> prefix (repoPath demo_repo @ ''/'') p}" by simp
  with a b c d have "raised (add (\<lambda>_. 0) demo_repo [''notes.easygit.txt''] notes_disk) = None
   \<and> get_paths ''Added'' demo_repo notes_disk [''notes.easygit.txt'']
       = Inr ([''/p/notes.easygit.txt''], [(DEBUG, ''Added file: /p/notes.easygit.txt'')])
   \<and> \<not> prefix (repoPath demo_repo @ ''/'') ''/p/notes.easygit.txt''
   \<and> ''/p/notes.easygit.txt''
        \<notin> set (staging_lines demo_repo
                 (disk (add (\<lambda>_. 0) demo_repo [''notes.easygit.txt''] notes_disk)))
   \<and> set (staging_lines demo_repo
            (disk (add (\<lambda>_. 0) demo_repo [''notes.easygit.txt''] notes_disk)))
       \<noteq> {p \<in> set (staging_lines demo_repo notes_disk) \<union> set [''/p/notes.easygit.txt''].
             \<not> prefix (repoPath demo_repo @ ''/'') p}" by auto
  with e f g h show ?thesis by blast
qed

section \<open>Staging twice, staging and unstaging\<close>


lemma convertToPath_abspath:
  "convertToPath cwd fs P = Some p \<Longrightarrow> p = os_path_abspath cwd P"
  by (auto simp add: convertToPath_def Let_def split: if_splits)

lemma convertToPath_update:
  "convertToPath cwd fs P = Some p \<Longrightarrow> convertToPath cwd (AList.update q e fs) P = Some p"
  by (auto simp add: convertToPath_def Let_def exists_update split: if_splits)



lemma staging_lines_absent:
  "\<not> os_path_exists fs (stagingFilePath r) \<Longrightarrow> staging_lines r fs = []"
  by (simp add: staging_lines_def open_read_def os_path_exists_def)




lemma remove_paths_set: "set (fst (remove_paths xs fps)) = set xs - set fps"
  by (induction fps arbitrary: xs) (auto simp add: split_def Let_def)


lemma os_remove_file:
  "open_read fs p = Inr s \<Longrightarrow> os_remove fs p = Inr (AList.delete p fs)"
  by (auto simp add: open_read_def os_remove_def split: option.splits entry.splits)

lemma exists_delete: "\<not> os_path_exists (AList.delete p fs) p"
  by (simp add: os_path_exists_def delete_conv')

lemma open_read_exists: "open_read fs p = Inr s \<Longrightarrow> os_path_exists fs p"
  by (auto simp add: open_read_def os_path_exists_def split: option.splits)

lemma remove_empties:
  assumes rd: "open_read fs (stagingFilePath r) = Inr s"
    and gp: "get_paths ''Removed'' r fs names = Inr (fps, lg)"
    and sub: "set (staging_lines r fs) \<subseteq> set fps"
  shows "raised (remove h r names fs) = None
       \<and> \<not> os_path_exists (disk (remove h r names fs)) (stagingFilePath r)"
proof -
  from rd have sl: "staging_lines r fs = staged_lines s" by (simp add: staging_lines_def)
  have "set (fst (remove_paths (remdups (staged_lines s)) fps)) = {}"
    using sub sl by (simp add: remove_paths_set)
  then have e: "fst (remove_paths (remdups (staged_lines s)) fps) = []" by simp
  from rd gp e os_remove_file [OF rd] open_read_exists [OF rd] show ?thesis
    by (simp add: remove_def Let_def split_def returns_def exists_delete)
qed



text \<open>The example project after \<open>a.txt\<close> and \<open>b.txt\<close> were staged.\<close>

definition staged_disk :: filesystem where
  "staged_disk = disk (add (\<lambda>_. 0) demo_repo [''a.txt'', ''b.txt''] demo_disk)"



section \<open>A new file only adds to what is resolved\<close>

lemma gather_Inr:
  "gather xs = Inr W \<Longrightarrow> (\<forall>x\<in>set xs. \<exists>ys. x = Inr ys) \<and> W = concat (map projr xs)"
proof (induction xs arbitrary: W)
  case Nil
  then show ?case by simp
next
  case (Cons x xs)
  show ?case
  proof (cases x)
    case (Inl e)
    with Cons.prems show ?thesis by simp
  next
    case (Inr ys)
    with Cons.prems obtain W' where g: "gather xs = Inr W'" and W: "W = ys @ W'"
      by (auto split: sum.splits)
    from Cons.IH [OF g] Inr W show ?thesis by simp
  qed
qed

lemma gather_all_Inr:
  "\<forall>x\<in>set xs. \<exists>ys. x = Inr ys \<Longrightarrow> gather xs = Inr (concat (map projr xs))"
  by (induction xs) auto

lemma key_present: "p \<in> fst ` set fs \<Longrightarrow> map_of fs p \<noteq> None"
  by (simp add: map_of_eq_None_iff)

lemma set_map_filter: "set (List.map_filter f xs) = {y. \<exists>x\<in>set xs. f x = Some y}"
  by (induction xs) (auto split: option.splits)

lemma os_listdir_names:
  assumes "os_listdir fs d = Inr names"
  shows "map_of fs d = Some Dir"
    and "set names = {n. \<exists>p\<in>fst ` set fs. child_name d p = Some n}"
proof -
  from assms show dir: "map_of fs d = Some Dir"
    by (auto simp add: os_listdir_def split: option.splits entry.splits)
  with assms have "names = remdups (List.map_filter (child_name d) (map fst fs))"
    by (simp add: os_listdir_def)
  then show "set names = {n. \<exists>p\<in>fst ` set fs. child_name d p = Some n}"
    by (simp add: set_map_filter)
qed

lemma os_listdir_dir:
  assumes "map_of fs d = Some Dir"
  shows "\<exists>names. os_listdir fs d = Inr names
     \<and> set names = {n. \<exists>p\<in>fst ` set fs. child_name d p = Some n}"
proof -
  from assms have "os_listdir fs d = Inr (remdups (List.map_filter (child_name d) (map fst fs)))"
    by (simp add: os_listdir_def)
  then show ?thesis by (simp add: set_map_filter)
qed

lemma walk_mono:
  "map_of fs q = None \<Longrightarrow> getAllChildFiles fs d = Inr W \<Longrightarrow>
   \<exists>W1. getAllChildFiles (AList.update q (File c) fs) d = Inr W1 \<and> set W \<subseteq> set W1"
proof (induction fs d arbitrary: W rule: getAllChildFiles.induct)
  case (1 fs folder)
  let ?fs1 = "AList.update q (File c) fs"
  let ?F = "\<lambda>fs path. let item = os_path_join folder path
              in if os_path_isfile fs item then Inr [item]
                 else if os_path_isdir fs item \<and> item \<noteq> os_path_join folder ''.easygit''
                      then getAllChildFiles fs item
                 else Inr []"
  have m1: "map_of ?fs1 p = (if p = q then Some (File c) else map_of fs p)" for p
    by (simp add: update_conv')
  from "1.prems"(2) obtain names where
    ls: "os_listdir fs folder = Inr names" and g: "gather (map (?F fs) names) = Inr W"
    by (subst (asm) getAllChildFiles.simps) (auto split: sum.splits)
  note dir = os_listdir_names(1) [OF ls]
  note names = os_listdir_names(2) [OF ls]
  from dir "1.prems"(1) have "folder \<noteq> q" by auto
  with dir have "map_of ?fs1 folder = Some Dir" by (simp add: m1)
  from os_listdir_dir [OF this] obtain names1 where
    ls1: "os_listdir ?fs1 folder = Inr names1"
    and names1: "set names1 = {n. \<exists>p\<in>fst ` set ?fs1. child_name folder p = Some n}"
    by auto
  have "set (map fst ?fs1) = insert q (set (map fst fs))"
    by (auto simp add: update_keys)
  then have keys1: "fst ` set ?fs1 = insert q (fst ` set fs)" by simp
  from gather_Inr [OF g]
  have allr: "\<forall>path\<in>set names. \<exists>ys. ?F fs path = Inr ys"
    and W: "W = concat (map projr (map (?F fs) names))" by auto
  have step: "\<exists>ys. ?F ?fs1 path = Inr ys
                \<and> (path \<in> set names \<longrightarrow> set (projr (?F fs path)) \<subseteq> set ys)"
    if "path \<in> set names1" for path
  proof (cases "path \<in> set names")
    case True
    then obtain p where p: "p \<in> fst ` set fs" and cn: "child_name folder p = Some path"
      using names by auto
    from child_name_join(1) [OF cn] have item: "os_path_join folder path = p" .
    from key_present [OF p] "1.prems"(1) have "p \<noteq> q" by auto
    then have same: "map_of ?fs1 p = map_of fs p" by (simp add: m1)
    show ?thesis
    proof (cases "os_path_isfile fs p")
      case f: True
      with same item show ?thesis by (simp add: os_path_isfile_def Let_def)
    next
      case f: False
      show ?thesis
      proof (cases "os_path_isdir fs p \<and> p \<noteq> os_path_join folder ''.easygit''")
        case d: True
        from allr True f d item obtain xs where xs: "getAllChildFiles fs p = Inr xs"
          by (auto simp add: Let_def)
        from "1.IH" [OF ls True item [symmetric] f d "1.prems"(1) xs]
        obtain ys where "getAllChildFiles ?fs1 p = Inr ys" and "set xs \<subseteq> set ys" by auto
        with f d same item xs show ?thesis
          by (simp add: os_path_isfile_def os_path_isdir_def Let_def)
      next
        case d: False
        with f same item show ?thesis
          by (auto simp add: os_path_isfile_def os_path_isdir_def Let_def)
      qed
    qed
  next
    case False
    from that names1 keys1 obtain p where "p = q \<or> p \<in> fst ` set fs"
      and cp: "child_name folder p = Some path" by auto
    with False names have cn: "child_name folder q = Some path" by auto
    from child_name_join(1) [OF cn] have "os_path_join folder path = q" .
    with False show ?thesis by (simp add: os_path_isfile_def m1 Let_def)
  qed
  then have all1: "\<forall>x\<in>set (map (?F ?fs1) names1). \<exists>ys. x = Inr ys" by auto
  from gather_all_Inr [OF this]
  have g1: "gather (map (?F ?fs1) names1) = Inr (concat (map projr (map (?F ?fs1) names1)))" .
  have sub: "set names \<subseteq> set names1" using names names1 keys1 by auto
  have "set W \<subseteq> set (concat (map projr (map (?F ?fs1) names1)))"
  proof
    fix x assume "x \<in> set W"
    with W obtain path where pn: "path \<in> set names" and x: "x \<in> set (projr (?F fs path))"
      by auto
    from pn sub have p1: "path \<in> set names1" by auto
    from step [OF p1] pn obtain ys where "?F ?fs1 path = Inr ys"
      and "set (projr (?F fs path)) \<subseteq> set ys" by auto
    with x p1 show "x \<in> set (concat (map projr (map (?F ?fs1) names1)))" by force
  qed
  moreover have "getAllChildFiles ?fs1 folder
      = Inr (concat (map projr (map (?F ?fs1) names1)))"
    using ls1 g1 by (subst getAllChildFiles.simps) simp
  ultimately show ?case by blast
qed

lemma explicit_paths_mono:
  "set (fst (explicit_paths verb cwd fs names))
     \<subseteq> set (fst (explicit_paths verb' cwd (AList.update q e fs) names))"
proof (induction names)
  case Nil
  show ?case by simp
next
  case (Cons n names)
  show ?case
  proof (cases "convertToPath cwd fs n")
    case None
    with Cons show ?thesis by (auto simp add: split_def Let_def split: option.splits)
  next
    case (Some p)
    from convertToPath_update [OF this] Cons Some show ?thesis
      by (auto simp add: split_def Let_def)
  qed
qed

lemma get_paths_mono:
  assumes "map_of fs q = None" and "get_paths verb r fs names = Inr (fps, lg)"
  shows "\<exists>fps1 lg1. get_paths verb' r (AList.update q (File c) fs) names = Inr (fps1, lg1)
           \<and> set fps \<subseteq> set fps1"
proof (cases "''.'' \<in> set names")
  case True
  with assms(2) have w: "getAllChildFiles fs (currentPath r) = Inr fps"
    by (auto simp add: get_paths_def split: sum.splits)
  from walk_mono [OF assms(1) w, of c] True show ?thesis
    by (auto simp add: get_paths_def)
next
  case False
  with assms(2) have "fps = fst (explicit_paths verb (currentPath r) fs names)"
    by (auto simp add: get_paths_def)
  with False explicit_paths_mono [of verb "currentPath r" fs names verb' q "File c"]
  show ?thesis by (cases "explicit_paths verb' (currentPath r) (AList.update q (File c) fs) names")
      (auto simp add: get_paths_def)
qed

lemma add_names_then_remove:
  assumes ne: "\<not> os_path_exists fs (stagingFilePath r)"
    and gp: "get_paths ''Added'' r fs names = Inr (fps, lg)"
    and safe: "\<forall>p\<in>set fps. line_safe p"
    and ok: "raised (add h r names fs) = None"
  shows "raised (remove h' r names (disk (add h r names fs))) = None
       \<and> \<not> os_path_exists (disk (remove h' r names (disk (add h r names fs))))
              (stagingFilePath r)"
proof -
  let ?fs1 = "disk (add h r names fs)"
  from add_disk [OF gp ok]
  have ow: "open_write fs (stagingFilePath r) (write_lines (add_written h r fs fps)) = Inr ?fs1" .
  from open_write_result [OF ow]
  have fs1: "?fs1 = AList.update (stagingFilePath r)
                     (File (write_lines (add_written h r fs fps))) fs" by simp
  then have rd: "open_read ?fs1 (stagingFilePath r)
                   = Inr (universal_newlines (write_lines (add_written h r fs fps)))"
    by (simp add: open_read_update_same)
  have l1: "set (staging_lines r ?fs1) \<subseteq> set fps"
    using add_staging_lines [OF gp ok safe]
    by (auto simp add: add_written_def set_set_iter staging_lines_absent [OF ne])
  from ne have "map_of fs (stagingFilePath r) = None" by (simp add: os_path_exists_def)
  from get_paths_mono [OF this gp, where verb' = "''Removed''"
      and c = "write_lines (add_written h r fs fps)"] fs1
  obtain fps2 lg2 where gp2: "get_paths ''Removed'' r ?fs1 names = Inr (fps2, lg2)"
    and "set fps \<subseteq> set fps2" by auto
  with l1 have "set (staging_lines r ?fs1) \<subseteq> set fps2" by blast
  from remove_empties [OF rd gp2 this] show ?thesis .
qed

section \<open>Staging and unstaging\<close>

text \<open>
  Claim C7, as the code has it. From a state without a staging file, a call of add that
  returns, with resolved paths free of line breaks, followed by a call of remove with
  the same names leaves no staging file. Whenever remove finds every persisted path among
  the resolved ones, so that the set it is left with is empty, it deletes the staging
  file.
\<close>

theorem stage_then_unstage:
  "(\<not> os_path_exists fs (stagingFilePath r)
      \<and> get_paths ''Added'' r fs names = Inr (fps, lg)
      \<and> (\<forall>p\<in>set fps. line_safe p)
      \<and> raised (add h r names fs) = None
    \<longrightarrow> raised (remove h' r names (disk (add h r names fs))) = None
        \<and> \<not> os_path_exists (disk (remove h' r names (disk (add h r names fs))))
              (stagingFilePath r))
   \<and> (open_read fs2 (stagingFilePath r) = Inr s
        \<and> get_paths ''Removed'' r fs2 names2 = Inr (fps2, lg2)
        \<and> set (staging_lines r fs2) \<subseteq> set fps2
      \<longrightarrow> raised (remove h r names2 fs2) = None
          \<and> \<not> os_path_exists (disk (remove h r names2 fs2)) (stagingFilePath r))"
  using add_names_then_remove [of fs r names fps lg h h']
    remove_empties [of fs2 r s names2 fps2 lg2 h]
  by blast

theorem stage_then_unstage_witness:
  "\<not> os_path_exists demo_disk (stagingFilePath demo_repo)
   \<and> get_paths ''Added'' demo_repo demo_disk [''a.txt'']
        = Inr ([''/p/a.txt''], [(DEBUG, ''Added file: /p/a.txt'')])
   \<and> line_safe ''/p/a.txt''
   \<and> raised (add (\<lambda>_. 0) demo_repo [''a.txt''] demo_disk) = None
   \<and> os_path_exists (disk (add (\<lambda>_. 0) demo_repo [''a.txt''] demo_disk))
        (stagingFilePath demo_repo)
   \<and> raised (remove length demo_repo [''a.txt'']
               (disk (add (\<lambda>_. 0) demo_repo [''a.txt''] demo_disk))) = None
   \<and> \<not> os_path_exists
          (disk (remove length demo_repo [''a.txt'']
                   (disk (add (\<lambda>_. 0) demo_repo [''a.txt''] demo_disk))))
          (stagingFilePath demo_repo)
   \<and> open_read staged_disk (stagingFilePath demo_repo)
        = Inr (write_lines [''/p/a.txt'', ''/p/b.txt''])
   \<and> get_paths ''Removed'' demo_repo staged_disk [''.'']
        = Inr ([''/p/a.txt'', ''/p/b.txt''],
               [(DEBUG, ''File located: /p/a.txt''), (DEBUG, ''File located: /p/b.txt'')])
   \<and> staging_lines demo_repo staged_disk = [''/p/a.txt'', ''/p/b.txt'']
   \<and> raised (remove (\<lambda>_. 0) demo_repo [''.''] staged_disk) = None
   \<and> \<not> os_path_exists (disk (remove (\<lambda>_. 0) demo_repo [''.''] staged_disk))
          (stagingFilePath demo_repo)"
proof -
  have a: "\<not> os_path_exists demo_disk (stagingFilePath demo_repo)"
    and b: "get_paths ''Added'' demo_repo demo_disk [''a.txt'']
        = Inr ([''/p/a.txt''], [(DEBUG, ''Added file: /p/a.txt'')])"
    and c: "raised (add (\<lambda>_. 0) demo_repo [''a.txt''] demo_disk) = None"
    and d: "os_path_exists (disk (add (\<lambda>_. 0) demo_repo [''a.txt''] demo_disk))
        (stagingFilePath demo_repo)"
    and e: "staging_lines demo_repo staged_disk = [''/p/a.txt'', ''/p/b.txt'']"
    and f: "get_paths ''Removed'' demo_repo staged_disk [''.'']
        = Inr ([''/p/a.txt'', ''/p/b.txt''],
               [(DEBUG, ''File located: /p/a.txt''), (DEBUG, ''File located: /p/b.txt'')])"
    and g: "open_read staged_disk (stagingFilePath demo_repo)
        = Inr (write_lines [''/p/a.txt'', ''/p/b.txt''])"
    and i: "line_safe ''/p/a.txt''"
    by code_simp+
  from e have sub: "set (staging_lines demo_repo staged_disk) \<subseteq> set [''/p/a.txt'', ''/p/b.txt'']"
    by auto
  from i have safe: "\<forall>p\<in>set [''/p/a.txt'']. line_safe p" by simp
  from stage_then_unstage [of demo_disk demo_repo "[''a.txt'']" "[''/p/a.txt'']"
         "[(DEBUG, ''Added file: /p/a.txt'')]" "\<lambda>_. 0" length staged_disk
         "write_lines [''/p/a.txt'', ''/p/b.txt'']" "[''.'']" "[''/p/a.txt'', ''/p/b.txt'']"
         "[(DEBUG, ''File located: /p/a.txt''), (DEBUG, ''File located: /p/b.txt'')]"]
       a b c d e f g i sub safe
  show ?thesis by simp
qed

text \<open>
  Claim C7, as stated, fails for a file whose name holds a line feed: its path is written
  as two lines, neither of which is the path that remove resolves, and the staging file
  stays.
\<close>

theorem stage_then_unstage_line_feed:
  "\<not> os_path_exists broken_name_disk (stagingFilePath demo_repo)
   \<and> os_path_isfile broken_name_disk (''/p/a'' @ [LF] @ ''b'')
   \<and> convertToPath (currentPath demo_repo) broken_name_disk (''a'' @ [LF] @ ''b'')
       = Some (''/p/a'' @ [LF] @ ''b'')
   \<and> raised (add (\<lambda>_. 0) demo_repo [''a'' @ [LF] @ ''b''] broken_name_disk) = None
   \<and> raised (remove (\<lambda>_. 0) demo_repo [''a'' @ [LF] @ ''b'']
               (disk (add (\<lambda>_. 0) demo_repo [''a'' @ [LF] @ ''b''] broken_name_disk))) = None
   \<and> os_path_exists
        (disk (remove (\<lambda>_. 0) demo_repo [''a'' @ [LF] @ ''b'']
                 (disk (add (\<lambda>_. 0) demo_repo [''a'' @ [LF] @ ''b''] broken_name_disk))))
        (stagingFilePath demo_repo)
   \<and> staging_lines demo_repo
        (disk (remove (\<lambda>_. 0) demo_repo [''a'' @ [LF] @ ''b'']
                 (disk (add (\<lambda>_. 0) demo_repo [''a'' @ [LF] @ ''b''] broken_name_disk))))
       = [''/p/a'', ''b'']"
  by code_simp

section \<open>Digests and the paths of a repository\<close>

text \<open>A digest as \<^verbatim>\<open>hexdigest()\<close> of SHA-1 prints it: forty hexadecimal digits.\<close>

definition is_digest :: "string \<Rightarrow> bool" where
  "is_digest d = (length d = 40 \<and> list_all (\<lambda>c. c \<in> set ''0123456789abcdef'') d)"

definition digest_fn :: "(string \<Rightarrow> string) \<Rightarrow> bool" where
  "digest_fn sha1 = (\<forall>x. is_digest (sha1 x))"

text \<open>
  The repository object for the working directory \<open>cwd\<close> when the metadata directory is
  the entry \<open>.easygit\<close> of \<open>folder\<close>, as \<^verbatim>\<open>getRepositoryPath\<close> builds its path.
\<close>

definition repo_at :: "string \<Rightarrow> string \<Rightarrow> easyGit" where
  "repo_at cwd folder = easyGit_init cwd (os_path_join folder ''.easygit'')"

definition record_file :: "easyGit \<Rightarrow> string \<Rightarrow> string" where
  "record_file r d = os_path_join (commitFolderPath r) d"

definition blob_dir :: "easyGit \<Rightarrow> string \<Rightarrow> string" where
  "blob_dir r d = os_path_join (changeFolderPath r) d"

definition blob_file :: "easyGit \<Rightarrow> string \<Rightarrow> string \<Rightarrow> string" where
  "blob_file r d b = os_path_join (os_path_join (changeFolderPath r) d) b"

text \<open>The text of a file as \<^verbatim>\<open>read()\<close> returns it (empty when it cannot be read).\<close>

definition text_of :: "filesystem \<Rightarrow> string \<Rightarrow> string" where
  "text_of fs p = (case open_read fs p of Inl _ \<Rightarrow> [] | Inr c \<Rightarrow> c)"

lemma digest_char: "is_digest d \<Longrightarrow> c \<in> set d \<Longrightarrow> c \<in> set ''0123456789abcdef''"
  by (simp add: is_digest_def list_all_iff)

lemma digest_nonempty: "is_digest d \<Longrightarrow> d \<noteq> []"
  by (auto simp add: is_digest_def)

lemma digest_plain:
  assumes "is_digest d"
  shows "CHR ''/'' \<notin> set d" and "CHR '':'' \<notin> set d" and "LF \<notin> set d" and "CR \<notin> set d"
  using digest_char [OF assms] by auto

lemma digest_not_HEAD: "is_digest d \<Longrightarrow> d \<noteq> ''HEAD''"
  by (auto simp add: is_digest_def)

lemma join_plain:
  assumes "a \<noteq> []" and "last a \<noteq> CHR ''/''" and "b \<noteq> []" and "CHR ''/'' \<notin> set b"
  shows "os_path_join a b = a @ ''/'' @ b"
proof -
  from assms(3,4) have "\<not> prefix ''/'' b" by (cases b) auto
  with assms(1,2) show ?thesis by (simp add: os_path_join_def suffix_single)
qed

lemma repo_root_shape: "\<exists>pre. os_path_join folder ''.easygit'' = pre @ ''.easygit''"
  by (simp add: os_path_join_def)

lemma repo_at_paths:
  fixes cwd folder
  defines "r \<equiv> repo_at cwd folder"
  shows "commitFolderPath r = repoPath r @ ''/commit''"
    and "changeFolderPath r = repoPath r @ ''/changes''"
    and "headFile r = repoPath r @ ''/commit/HEAD''"
    and "stagingFilePath r = repoPath r @ ''/stagingCache''"
    and "str_in ''.easygit'' (repoPath r)"
proof -
  obtain pre where R: "repoPath r = pre @ ''.easygit''"
    using repo_root_shape [of folder] by (auto simp add: r_def repo_at_def easyGit_init_def)
  then have ne: "repoPath r \<noteq> []" and l: "last (repoPath r) \<noteq> CHR ''/''" by simp_all
  have j: "os_path_join (repoPath r) b = repoPath r @ ''/'' @ b"
    if "b \<noteq> []" "CHR ''/'' \<notin> set b" for b
    using join_plain [OF ne l that] .
  have c: "commitFolderPath r = os_path_join (repoPath r) ''commit''"
    and g: "changeFolderPath r = os_path_join (repoPath r) ''changes''"
    and h: "headFile r = os_path_join (os_path_join (repoPath r) ''commit'') ''HEAD''"
    by (simp_all add: r_def repo_at_def easyGit_init_def)
  show "commitFolderPath r = repoPath r @ ''/commit''" using c j by simp
  show "changeFolderPath r = repoPath r @ ''/changes''" using g j by simp
  show "stagingFilePath r = repoPath r @ ''/stagingCache''"
    using j by (simp add: stagingFilePath_def)
  have "os_path_join (repoPath r @ ''/commit'') ''HEAD'' = (repoPath r @ ''/commit'') @ ''/'' @ ''HEAD''"
    by (rule join_plain) simp_all
  then show "headFile r = repoPath r @ ''/commit/HEAD''" using h j by simp
  have "sublist ''.easygit'' (pre @ ''.easygit'' @ [])" by (rule sublist_appendI)
  then show "str_in ''.easygit'' (repoPath r)" using R by (simp add: str_in_sublist)
qed

lemma repo_at_digest_paths:
  fixes cwd folder
  defines "r \<equiv> repo_at cwd folder"
  assumes "is_digest d"
  shows "record_file r d = repoPath r @ ''/commit/'' @ d"
    and "blob_dir r d = repoPath r @ ''/changes/'' @ d"
    and "is_digest b \<Longrightarrow> blob_file r d b = repoPath r @ ''/changes/'' @ d @ ''/'' @ b"
proof -
  note p = repo_at_paths [of cwd folder, folded r_def]
  note dp = digest_plain [OF assms(2)] digest_nonempty [OF assms(2)]
  have "os_path_join (repoPath r @ ''/commit'') d = (repoPath r @ ''/commit'') @ ''/'' @ d"
    by (rule join_plain) (use dp in simp_all)
  then show "record_file r d = repoPath r @ ''/commit/'' @ d"
    by (simp add: record_file_def p)
  have bd: "os_path_join (repoPath r @ ''/changes'') d = (repoPath r @ ''/changes'') @ ''/'' @ d"
    by (rule join_plain) (use dp in simp_all)
  then show "blob_dir r d = repoPath r @ ''/changes/'' @ d"
    by (simp add: blob_dir_def p)
  assume b: "is_digest b"
  have "last d \<in> set d" using dp by simp
  then have "last d \<noteq> CHR ''/''" using dp by metis
  then have "os_path_join (repoPath r @ ''/changes/'' @ d) b
               = (repoPath r @ ''/changes/'' @ d) @ ''/'' @ b"
    using digest_plain [OF b] digest_nonempty [OF b] dp by (intro join_plain) simp_all
  then show "blob_file r d b = repoPath r @ ''/changes/'' @ d @ ''/'' @ b"
    using bd by (simp add: blob_file_def p)
qed

section \<open>What a commit writes\<close>

lemma os_mkdir_result:
  "os_mkdir fs p = Inr fs' \<Longrightarrow> fs' = AList.update p Dir fs \<and> \<not> os_path_exists fs p"
  by (auto simp add: os_mkdir_def split: if_splits)

lemma commit_files_frame:
  assumes "\<And>x. os_path_join BD (sha1 x) = BD @ ''/'' @ sha1 x"
    and "commit_files sha1 BD files fs w = (err, fs', w')"
    and "\<not> prefix (BD @ ''/'') q"
  shows "map_of fs' q = map_of fs q"
  using assms(2)
proof (induction files arbitrary: fs w)
  case Nil
  then show ?case by simp
next
  case (Cons f files)
  show ?case
  proof (cases "open_read fs f")
    case (Inl e)
    with Cons.prems show ?thesis by simp
  next
    case (Inr content)
    show ?thesis
    proof (cases "open_write fs (os_path_join BD (sha1 (f @ content))) content")
      case (Inl e)
      with Cons.prems Inr show ?thesis by simp
    next
      case w: (Inr fsx)
      from open_write_result [OF w] assms(1)
      have fsx: "fsx = AList.update (BD @ ''/'' @ sha1 (f @ content)) (File content) fs" by simp
      have "q \<noteq> BD @ ''/'' @ sha1 (f @ content)" using assms(3) by auto
      with fsx have "map_of fsx q = map_of fs q" by (simp add: update_conv')
      moreover from Cons.prems Inr w
      have "commit_files sha1 BD files fsx (w @ f @ '':::'' @ sha1 (f @ content) @ [LF])
              = (err, fs', w')" by (simp add: Let_def)
      from Cons.IH [OF this] have "map_of fs' q = map_of fsx q" .
      ultimately show ?thesis by simp
    qed
  qed
qed

lemma commit_files_prefix:
  "commit_files sha1 BD files fs w = (err, fs', w') \<Longrightarrow> prefix w w'"
proof (induction files arbitrary: fs w)
  case Nil
  then show ?case by simp
next
  case (Cons f files)
  show ?case
  proof (cases "open_read fs f")
    case (Inl e)
    with Cons.prems show ?thesis by simp
  next
    case (Inr content)
    show ?thesis
    proof (cases "open_write fs (os_path_join BD (sha1 (f @ content))) content")
      case (Inl e)
      with Cons.prems Inr show ?thesis by simp
    next
      case w: (Inr fsx)
      from Cons.prems Inr w
      have "commit_files sha1 BD files fsx (w @ f @ '':::'' @ sha1 (f @ content) @ [LF])
              = (err, fs', w')" by (simp add: Let_def)
      from Cons.IH [OF this] show ?thesis using append_prefixD by blast
    qed
  qed
qed

lemma commit_files_isfile:
  "commit_files sha1 BD files fs w = (err, fs', w') \<Longrightarrow> os_path_isfile fs p
   \<Longrightarrow> os_path_isfile fs' p"
proof (induction files arbitrary: fs w)
  case Nil
  then show ?case by simp
next
  case (Cons f files)
  show ?case
  proof (cases "open_read fs f")
    case (Inl e)
    with Cons.prems show ?thesis by simp
  next
    case (Inr content)
    show ?thesis
    proof (cases "open_write fs (os_path_join BD (sha1 (f @ content))) content")
      case (Inl e)
      with Cons.prems Inr show ?thesis by simp
    next
      case w: (Inr fsx)
      from open_write_result [OF w] Cons.prems(2)
      have "os_path_isfile fsx p" by (auto simp add: os_path_isfile_def update_conv')
      moreover from Cons.prems Inr w
      have "commit_files sha1 BD files fsx (w @ f @ '':::'' @ sha1 (f @ content) @ [LF])
              = (err, fs', w')" by (simp add: Let_def)
      ultimately show ?thesis using Cons.IH by blast
    qed
  qed
qed

lemma commit_files_written:
  assumes "\<And>x. os_path_join BD (sha1 x) = BD @ ''/'' @ sha1 x"
    and "commit_files sha1 BD files fs w = (None, fs', w')"
    and "\<forall>f\<in>set files. \<not> prefix (BD @ ''/'') f"
  shows "w' = w @ concat (map (\<lambda>f. f @ '':::'' @ sha1 (f @ text_of fs f) @ [LF]) files)
       \<and> (\<forall>f\<in>set files. os_path_isfile fs' (BD @ ''/'' @ sha1 (f @ text_of fs f)))"
  using assms(2,3)
proof (induction files arbitrary: fs w)
  case Nil
  then show ?case by simp
next
  case (Cons f files)
  show ?case
  proof (cases "open_read fs f")
    case (Inl e)
    with Cons.prems show ?thesis by simp
  next
    case (Inr content)
    then have t: "text_of fs f = content" by (simp add: text_of_def)
    show ?thesis
    proof (cases "open_write fs (os_path_join BD (sha1 (f @ content))) content")
      case (Inl e)
      with Cons.prems Inr show ?thesis by simp
    next
      case w: (Inr fsx)
      from open_write_result [OF w] assms(1)
      have fsx: "fsx = AList.update (BD @ ''/'' @ sha1 (f @ content)) (File content) fs" by simp
      from Cons.prems(1) Inr w
      have rest: "commit_files sha1 BD files fsx (w @ f @ '':::'' @ sha1 (f @ content) @ [LF])
              = (None, fs', w')" by (simp add: Let_def)
      have same: "text_of fsx g = text_of fs g" if "g \<in> set files" for g
      proof -
        from that Cons.prems(2) have "g \<noteq> BD @ ''/'' @ sha1 (f @ content)" by auto
        then show ?thesis by (simp add: text_of_def fsx open_read_update_other)
      qed
      from Cons.prems(2) have "\<forall>f\<in>set files. \<not> prefix (BD @ ''/'') f" by simp
      from Cons.IH [OF rest this] same
      have w': "w' = (w @ f @ '':::'' @ sha1 (f @ content) @ [LF])
                  @ concat (map (\<lambda>f. f @ '':::'' @ sha1 (f @ text_of fs f) @ [LF]) files)"
        and blobs: "\<forall>g\<in>set files. os_path_isfile fs' (BD @ ''/'' @ sha1 (g @ text_of fs g))"
        by (simp_all cong: map_cong)
      have "os_path_isfile fsx (BD @ ''/'' @ sha1 (f @ content))"
        by (simp add: fsx os_path_isfile_def update_conv')
      from commit_files_isfile [OF rest this] blobs w' t show ?thesis by simp
    qed
  qed
qed

lemma commit_stages:
  assumes "raised (commit sha1 h now r message fs) = None"
    and "os_path_exists fs (stagingFilePath r)"
  obtains s lastCommitSHA fs1 fs2 fs3 fs4 written where
    "open_read fs (stagingFilePath r) = Inr s"
    and "open_read fs (headFile r) = Inr lastCommitSHA"
    and "open_write fs (headFile r) (sha1 (now @ stagingFilePath r)) = Inr fs1"
    and "os_mkdir fs1 (blob_dir r (sha1 (now @ stagingFilePath r))) = Inr fs2"
    and "open_write fs2 (record_file r (sha1 (now @ stagingFilePath r))) [] = Inr fs3"
    and "commit_files sha1 (blob_dir r (sha1 (now @ stagingFilePath r)))
           (set_iter h (staged_lines s)) fs3 (record_header lastCommitSHA message)
         = (None, fs4, written)"
    and "disk (commit sha1 h now r message fs)
         = AList.update (record_file r (sha1 (now @ stagingFilePath r))) (File written) fs4"
  using assms
  by (auto simp add: commit_def Let_def raises_def returns_def blob_dir_def record_file_def
      split: sum.splits prod.splits)

lemma under_repo_marked:
  assumes "str_in ''.easygit'' R" and "prefix R q"
  shows "str_in ''.easygit'' q"
proof -
  from assms(2) obtain x where "q = R @ x" by (auto simp add: prefix_def)
  with assms(1) show ?thesis by (simp add: str_in_append)
qed

lemma commit_effect:
  fixes cwd folder sha1 h now message fs
  defines "r \<equiv> repo_at cwd folder"
  defines "d \<equiv> sha1 (now @ stagingFilePath r)"
  defines "D \<equiv> disk (commit sha1 h now r message fs)"
  assumes dg: "digest_fn sha1"
    and ok: "raised (commit sha1 h now r message fs) = None"
    and ex: "os_path_exists fs (stagingFilePath r)"
  shows "map_of D (headFile r) = Some (File d)"
    and "map_of D (blob_dir r d) = Some Dir"
    and "\<exists>rest. map_of D (record_file r d)
           = Some (File (record_header (text_of fs (headFile r)) message @ rest))"
    and "\<And>q. q \<noteq> headFile r \<Longrightarrow> q \<noteq> blob_dir r d \<Longrightarrow> q \<noteq> record_file r d
           \<Longrightarrow> \<not> prefix (blob_dir r d @ ''/'') q \<Longrightarrow> map_of D q = map_of fs q"
    and "\<not> os_path_exists fs (blob_dir r d)"
    and "\<exists>c. open_read fs (headFile r) = Inr c"
    and "\<forall>f\<in>set (staging_lines r fs). \<not> str_in ''.easygit'' f \<Longrightarrow>
           map_of D (record_file r d)
             = Some (File (record_header (text_of fs (headFile r)) message
                  @ concat (map (\<lambda>f. f @ '':::'' @ sha1 (f @ text_of fs f) @ [LF])
                              (set_iter h (staging_lines r fs)))))
           \<and> (\<forall>f\<in>set (staging_lines r fs).
                 os_path_isfile D (blob_file r d (sha1 (f @ text_of fs f))))"
proof -
  have isd: "is_digest d" and isx: "\<And>x. is_digest (sha1 x)"
    using dg by (simp_all add: digest_fn_def d_def)
  note p = repo_at_paths [of cwd folder, folded r_def]
  note dp = repo_at_digest_paths [where d = d and cwd = cwd and folder = folder, folded r_def, OF isd]
  from ok ex obtain s lastCommitSHA fs1 fs2 fs3 fs4 written where
    st: "open_read fs (stagingFilePath r) = Inr s"
    and hd: "open_read fs (headFile r) = Inr lastCommitSHA"
    and w1: "open_write fs (headFile r) d = Inr fs1"
    and mk: "os_mkdir fs1 (blob_dir r d) = Inr fs2"
    and w3: "open_write fs2 (record_file r d) [] = Inr fs3"
    and cf: "commit_files sha1 (blob_dir r d) (set_iter h (staged_lines s)) fs3
               (record_header lastCommitSHA message) = (None, fs4, written)"
    and D: "D = AList.update (record_file r d) (File written) fs4"
    unfolding d_def D_def by (rule commit_stages)
  have fs1: "fs1 = AList.update (headFile r) (File d) fs"
    using open_write_result [OF w1] by simp
  have fs2: "fs2 = AList.update (blob_dir r d) Dir fs1"
    and nex: "\<not> os_path_exists fs1 (blob_dir r d)"
    using os_mkdir_result [OF mk] by simp_all
  have fs3: "fs3 = AList.update (record_file r d) (File []) fs2"
    using open_write_result [OF w3] by simp
  have J: "os_path_join (blob_dir r d) (sha1 x) = blob_dir r d @ ''/'' @ sha1 x" for x
    using dp(3) [OF isx [of x]] dp(2) by (simp add: blob_file_def blob_dir_def)
  have ne1: "record_file r d \<noteq> headFile r"
    using digest_not_HEAD [OF isd] by (simp add: dp p)
  have ne2: "blob_dir r d \<noteq> headFile r" and ne3: "blob_dir r d \<noteq> record_file r d"
    by (simp_all add: dp p)
  have np1: "\<not> prefix (blob_dir r d @ ''/'') (headFile r)"
    and np2: "\<not> prefix (blob_dir r d @ ''/'') (record_file r d)"
    and np3: "\<not> prefix (blob_dir r d @ ''/'') (blob_dir r d)"
    by (simp_all add: dp p)
  note frame = commit_files_frame [OF J cf]
  have t: "text_of fs (headFile r) = lastCommitSHA" using hd by (simp add: text_of_def)
  show "map_of D (headFile r) = Some (File d)"
    using ne1 ne2 frame [OF np1] by (simp add: D fs3 fs2 fs1 update_conv')
  show "map_of D (blob_dir r d) = Some Dir"
    using ne3 frame [OF np3] by (simp add: D fs3 fs2 update_conv')
  show "\<exists>rest. map_of D (record_file r d)
           = Some (File (record_header (text_of fs (headFile r)) message @ rest))"
    using commit_files_prefix [OF cf] t by (auto simp add: D update_conv' prefix_def)
  show "map_of D q = map_of fs q"
    if "q \<noteq> headFile r" "q \<noteq> blob_dir r d" "q \<noteq> record_file r d"
       "\<not> prefix (blob_dir r d @ ''/'') q" for q
    using that frame [OF that(4)] by (simp add: D fs3 fs2 fs1 update_conv')
  show "\<not> os_path_exists fs (blob_dir r d)"
    using nex ne2 by (simp add: fs1 exists_update)
  show "\<exists>c. open_read fs (headFile r) = Inr c" using hd by simp
  assume clean: "\<forall>f\<in>set (staging_lines r fs). \<not> str_in ''.easygit'' f"
  have sl: "staging_lines r fs = staged_lines s" using st by (simp add: staging_lines_def)
  have marked: "str_in ''.easygit'' q" if "prefix (repoPath r) q" for q
    using under_repo_marked [OF p(5) that] .
  have out: "\<not> prefix (repoPath r) f" if "f \<in> set (staged_lines s)" for f
    using that clean marked sl by auto
  have np: "\<forall>f\<in>set (set_iter h (staged_lines s)). \<not> prefix (blob_dir r d @ ''/'') f"
  proof
    fix f assume "f \<in> set (set_iter h (staged_lines s))"
    then have "\<not> prefix (repoPath r) f" using out by (simp add: set_set_iter)
    moreover have "prefix (repoPath r) (blob_dir r d @ ''/'')" by (simp add: dp)
    ultimately show "\<not> prefix (blob_dir r d @ ''/'') f" using prefix_order.trans by blast
  qed
  have same: "text_of fs3 f = text_of fs f" if "f \<in> set (staged_lines s)" for f
  proof -
    from out [OF that] have "f \<noteq> headFile r" "f \<noteq> blob_dir r d" "f \<noteq> record_file r d"
      by (auto simp add: dp p)
    then show ?thesis by (simp add: text_of_def fs3 fs2 fs1 open_read_update_other)
  qed
  have meq: "map (\<lambda>f. f @ '':::'' @ sha1 (f @ text_of fs3 f) @ [LF]) (set_iter h (staged_lines s))
           = map (\<lambda>f. f @ '':::'' @ sha1 (f @ text_of fs f) @ [LF]) (set_iter h (staged_lines s))"
    by (rule map_cong) (simp_all add: set_set_iter same)
  note cw = commit_files_written [OF J cf np]
  from cw have wr0: "written = record_header lastCommitSHA message
              @ concat (map (\<lambda>f. f @ '':::'' @ sha1 (f @ text_of fs3 f) @ [LF])
                           (set_iter h (staged_lines s)))" by (rule conjunct1)
  have wr: "written = record_header lastCommitSHA message
              @ concat (map (\<lambda>f. f @ '':::'' @ sha1 (f @ text_of fs f) @ [LF])
                           (set_iter h (staged_lines s)))"
    using wr0 by (simp only: meq)
  from cw have "\<forall>f\<in>set (set_iter h (staged_lines s)).
               os_path_isfile fs4 (blob_dir r d @ ''/'' @ sha1 (f @ text_of fs3 f))"
    by (rule conjunct2)
  with same have bl: "\<forall>f\<in>set (staged_lines s).
               os_path_isfile fs4 (blob_dir r d @ ''/'' @ sha1 (f @ text_of fs f))"
    by (simp add: set_set_iter)
  have bf: "blob_file r d (sha1 x) = blob_dir r d @ ''/'' @ sha1 x" for x
    using J by (simp add: blob_file_def blob_dir_def)
  have "os_path_isfile D (blob_file r d (sha1 (f @ text_of fs f)))"
    if "f \<in> set (staged_lines s)" for f
  proof -
    have "prefix (blob_dir r d @ ''/'') (blob_file r d (sha1 (f @ text_of fs f)))"
      by (simp add: bf)
    with np2 have "blob_file r d (sha1 (f @ text_of fs f)) \<noteq> record_file r d"
      by metis
    with bl that show ?thesis by (simp add: D os_path_isfile_def update_conv' bf)
  qed
  with wr t sl
  show "map_of D (record_file r d)
             = Some (File (record_header (text_of fs (headFile r)) message
                  @ concat (map (\<lambda>f. f @ '':::'' @ sha1 (f @ text_of fs f) @ [LF])
                              (set_iter h (staging_lines r fs)))))
           \<and> (\<forall>f\<in>set (staging_lines r fs).
                 os_path_isfile D (blob_file r d (sha1 (f @ text_of fs f))))"
    by (simp add: D update_conv')
qed

text \<open>
  A stand-in digest function for the examples: the hexadecimal codes of the first
  twenty characters, padded with zeros. It is not SHA-1; the theorems hold for every
  function that returns digests.
\<close>

definition hex_digit :: "nat \<Rightarrow> char" where
  "hex_digit n = ''0123456789abcdef'' ! (n mod 16)"

definition demo_sha1 :: "string \<Rightarrow> string" where
  "demo_sha1 s =
     take 40 (concat (map (\<lambda>c. [hex_digit (of_char c div 16), hex_digit (of_char c)]) s)
              @ replicate 40 (CHR ''0''))"

lemma hex_digit_hex: "hex_digit n \<in> set ''0123456789abcdef''"
proof -
  have "n mod 16 < length ''0123456789abcdef''" by simp
  then show ?thesis unfolding hex_digit_def by (rule nth_mem)
qed

lemma demo_sha1_digest: "digest_fn demo_sha1"
proof -
  have "is_digest (demo_sha1 x)" for x
  proof -
    let ?body = "concat (map (\<lambda>c. [hex_digit (of_char c div 16), hex_digit (of_char c)]) x)
                 @ replicate 40 (CHR ''0'')"
    have "set ?body \<subseteq> set ''0123456789abcdef''"
      using hex_digit_hex by auto
    moreover have "set (take 40 ?body) \<subseteq> set ?body" by (rule set_take_subset)
    ultimately have "\<forall>c\<in>set (demo_sha1 x). c \<in> set ''0123456789abcdef''"
      unfolding demo_sha1_def by blast
    moreover have "length (demo_sha1 x) = 40" by (simp add: demo_sha1_def)
    ultimately show ?thesis unfolding is_digest_def list_all_iff by blast
  qed
  then show ?thesis by (simp add: digest_fn_def)
qed

lemma demo_repo_at: "demo_repo = repo_at ''/p'' ''/p''"
  by (simp add: demo_repo_def repo_at_def)

section \<open>The digests of a commit\<close>

text \<open>
  The characters stored in a file, as they are on the disk. A file is held as the text
  that its bytes decode to; a file whose bytes are not UTF-8, for which \<^verbatim>\<open>read()\<close> raises
  and the commit does not run to its end, is not among the files of this model.
\<close>

definition stored_text :: "filesystem \<Rightarrow> string \<Rightarrow> string" where
  "stored_text fs p = (case map_of fs p of Some (File c) \<Rightarrow> c | _ \<Rightarrow> [])"

lemma text_of_stored: "text_of fs p = universal_newlines (stored_text fs p)"
  by (simp add: text_of_def stored_text_def open_read_def split: option.splits entry.splits)

text \<open>
  Claim C4, as the code has it. A commit that runs to its end names itself by the digest
  of the time stamp followed by the path of the staging file: HEAD holds that digest,
  and the blob directory and the commit record carry it as their name. Nothing else
  enters it: not the staged files, not the message, not the parent. For each staged path
  the record holds the line \<open>path:::digest\<close>, where the digest is that of the path followed
  by the text that \<^verbatim>\<open>read()\<close> returns for the file, that is, its stored characters with
  every carriage return, alone or before a line feed, turned into one line feed; a blob
  of that name is in the commit's blob directory. For a file without a carriage return
  that text is the stored content itself. The staged paths are absolute, normalised and
  free of the text \<open>.easygit\<close>, as add leaves them.
\<close>

theorem commit_digests:
  fixes cwd folder sha1 h now message fs
  defines "r \<equiv> repo_at cwd folder"
  defines "D \<equiv> disk (commit sha1 h now r message fs)"
  assumes "digest_fn sha1"
    and "os_path_exists fs (stagingFilePath r)"
    and "raised (commit sha1 h now r message fs) = None"
    and "\<forall>f\<in>set (staging_lines r fs). \<not> str_in ''.easygit'' f"
    and "\<forall>f\<in>set (staging_lines r fs). prefix ''/'' f \<and> os_path_normpath f = f"
  shows "open_read D (headFile r) = Inr (sha1 (now @ stagingFilePath r))
       \<and> os_path_isdir D (blob_dir r (sha1 (now @ stagingFilePath r)))
       \<and> map_of D (record_file r (sha1 (now @ stagingFilePath r)))
           = Some (File (record_header (text_of fs (headFile r)) message
                @ concat (map (\<lambda>f. f @ '':::''
                                   @ sha1 (f @ universal_newlines (stored_text fs f)) @ [LF])
                            (set_iter h (staging_lines r fs)))))
       \<and> (\<forall>f\<in>set (staging_lines r fs).
             os_path_isfile D (blob_file r (sha1 (now @ stagingFilePath r))
                                 (sha1 (f @ universal_newlines (stored_text fs f)))))
       \<and> (\<forall>f\<in>set (staging_lines r fs).
             CR \<notin> set (stored_text fs f)
             \<longrightarrow> sha1 (f @ universal_newlines (stored_text fs f))
                 = sha1 (f @ stored_text fs f))"
proof -
  note e = commit_effect [OF assms(3) assms(5) [unfolded r_def] assms(4) [unfolded r_def],
      folded r_def, folded D_def]
  have "is_digest (sha1 (now @ stagingFilePath r))"
    using assms(3) by (simp add: digest_fn_def)
  then have "universal_newlines (sha1 (now @ stagingFilePath r)) = sha1 (now @ stagingFilePath r)"
    using digest_plain(4) universal_newlines_id by blast
  with e(1) have "open_read D (headFile r) = Inr (sha1 (now @ stagingFilePath r))"
    by (simp add: open_read_def)
  moreover from e(2) have "os_path_isdir D (blob_dir r (sha1 (now @ stagingFilePath r)))"
    by (simp add: os_path_isdir_def)
  moreover note e(7) [OF assms(6), unfolded text_of_stored [of fs]]
  moreover have "\<forall>f\<in>set (staging_lines r fs).
             CR \<notin> set (stored_text fs f)
             \<longrightarrow> sha1 (f @ universal_newlines (stored_text fs f))
                 = sha1 (f @ stored_text fs f)"
    by (simp add: universal_newlines_id)
  ultimately show ?thesis by (simp add: text_of_stored)
qed

theorem commit_digests_witness:
  "digest_fn demo_sha1
   \<and> os_path_exists staged_disk (stagingFilePath (repo_at ''/p'' ''/p''))
   \<and> raised (commit demo_sha1 (\<lambda>_. 0) ''20260101 10-00-00'' (repo_at ''/p'' ''/p'') [''first'']
               staged_disk) = None
   \<and> staging_lines (repo_at ''/p'' ''/p'') staged_disk = [''/p/a.txt'', ''/p/b.txt'']
   \<and> \<not> str_in ''.easygit'' ''/p/a.txt'' \<and> \<not> str_in ''.easygit'' ''/p/b.txt''
   \<and> prefix ''/'' ''/p/a.txt'' \<and> prefix ''/'' ''/p/b.txt''
   \<and> os_path_normpath ''/p/a.txt'' = ''/p/a.txt''
   \<and> os_path_normpath ''/p/b.txt'' = ''/p/b.txt''
   \<and> stored_text staged_disk ''/p/a.txt'' = ''hello''
   \<and> stored_text staged_disk ''/p/b.txt'' = ''world''
   \<and> open_read
        (disk (commit demo_sha1 (\<lambda>_. 0) ''20260101 10-00-00'' (repo_at ''/p'' ''/p'') [''first'']
                 staged_disk))
        (headFile (repo_at ''/p'' ''/p''))
       = Inr (demo_sha1 (''20260101 10-00-00'' @ ''/p/.easygit/stagingCache''))
   \<and> os_path_isfile
        (disk (commit demo_sha1 (\<lambda>_. 0) ''20260101 10-00-00'' (repo_at ''/p'' ''/p'') [''first'']
                 staged_disk))
        (blob_file (repo_at ''/p'' ''/p'')
           (demo_sha1 (''20260101 10-00-00'' @ ''/p/.easygit/stagingCache''))
           (demo_sha1 (''/p/a.txt'' @ ''hello'')))
   \<and> os_path_isfile
        (disk (commit demo_sha1 (\<lambda>_. 0) ''20260101 10-00-00'' (repo_at ''/p'' ''/p'') [''first'']
                 staged_disk))
        (blob_file (repo_at ''/p'' ''/p'')
           (demo_sha1 (''20260101 10-00-00'' @ ''/p/.easygit/stagingCache''))
           (demo_sha1 (''/p/b.txt'' @ ''world'')))"
proof -
  have a: "os_path_exists staged_disk (stagingFilePath (repo_at ''/p'' ''/p''))"
    and b: "raised (commit demo_sha1 (\<lambda>_. 0) ''20260101 10-00-00'' (repo_at ''/p'' ''/p'')
                      [''first''] staged_disk) = None"
    and c: "staging_lines (repo_at ''/p'' ''/p'') staged_disk = [''/p/a.txt'', ''/p/b.txt'']"
    and d: "\<not> str_in ''.easygit'' ''/p/a.txt''" "\<not> str_in ''.easygit'' ''/p/b.txt''"
    and e: "stagingFilePath (repo_at ''/p'' ''/p'') = ''/p/.easygit/stagingCache''"
    and f: "stored_text staged_disk ''/p/a.txt'' = ''hello''"
           "stored_text staged_disk ''/p/b.txt'' = ''world''"
    and n: "os_path_normpath ''/p/a.txt'' = ''/p/a.txt''"
           "os_path_normpath ''/p/b.txt'' = ''/p/b.txt''"
    by code_simp+
  from c d have g: "\<forall>f\<in>set (staging_lines (repo_at ''/p'' ''/p'') staged_disk).
                      \<not> str_in ''.easygit'' f" by simp
  from c n have i: "\<forall>f\<in>set (staging_lines (repo_at ''/p'' ''/p'') staged_disk).
                        prefix ''/'' f \<and> os_path_normpath f = f"
    by simp
  from commit_digests [OF demo_sha1_digest a b g i] a b c d e f n demo_sha1_digest
  show ?thesis by simp
qed

text \<open>
  The example project with a file that holds a carriage return and a line feed; the file
  is staged and committed. The report holds what the commit raised, the characters
  stored in the file, the last line of the commit record, whether the digest in that
  line is the digest of the path followed by the stored characters, and whether the blob
  directory has a blob of the one name and of the other.
\<close>

definition crlf_disk :: filesystem where
  "crlf_disk = (''/p/c.txt'', File (''x'' @ [CR, LF] @ ''y'')) # demo_disk"

record crlf_commit =
  crlf_raised :: "error option"
  crlf_stored :: string
  crlf_record_line :: string
  digest_of_stored :: bool
  blob_of_stored :: bool
  blob_of_read :: bool

definition run_crlf_commit :: crlf_commit where
  "run_crlf_commit =
     (let r = repo_at ''/p'' ''/p'';
          staged = disk (add (\<lambda>_. 0) r [''c.txt''] crlf_disk);
          c = commit demo_sha1 (\<lambda>_. 0) ''20260101 10-00-00'' r [''first''] staged;
          d = demo_sha1 (''20260101 10-00-00'' @ stagingFilePath r);
          stored = stored_text staged ''/p/c.txt'';
          recorded = last (map strip_nl (readlines (stored_text (disk c) (record_file r d))))
      in \<lparr> crlf_raised = raised c,
           crlf_stored = stored,
           crlf_record_line = recorded,
           digest_of_stored = (recorded = ''/p/c.txt:::'' @ demo_sha1 (''/p/c.txt'' @ stored)),
           blob_of_stored =
             os_path_exists (disk c) (blob_file r d (demo_sha1 (''/p/c.txt'' @ stored))),
           blob_of_read =
             os_path_exists (disk c)
               (blob_file r d (demo_sha1 (''/p/c.txt'' @ universal_newlines stored))) \<rparr>)"

text \<open>
  Claim C4, as stated, fails for a file that holds a carriage return: the blob's digest
  is that of the path followed by the text read, \<open>x\<close>, line feed, \<open>y\<close>, and not that of the
  path followed by the content of the file, \<open>x\<close>, carriage return, line feed, \<open>y\<close>; no blob
  carries the digest of the content.
\<close>

theorem commit_digest_of_crlf_file:
  "run_crlf_commit =
     \<lparr> crlf_raised = None,
       crlf_stored = ''x'' @ [CR, LF] @ ''y'',
       crlf_record_line = ''/p/c.txt:::'' @ demo_sha1 (''/p/c.txt'' @ ''x'' @ [LF] @ ''y''),
       digest_of_stored = False,
       blob_of_stored = False,
       blob_of_read = True \<rparr>"
  by code_simp

section \<open>Two commits in sequence\<close>

lemma universal_newlines_line:
  "CR \<notin> set a \<Longrightarrow> universal_newlines (a @ LF # b) = a @ LF # universal_newlines b"
proof (induction a)
  case Nil
  show ?case by (cases b) simp_all
next
  case (Cons c a)
  then show ?case by (cases a) auto
qed

lemma readline_line: "LF \<notin> set a \<Longrightarrow> readline (a @ LF # b) = a @ [LF]"
  by (simp add: readline_def readlines_line)

lemma split_from_plain: "c \<notin> set x \<Longrightarrow> split_from [c] cur x = [rev cur @ x]"
  by (induction x arbitrary: cur) auto

lemma split_HEAD: "CHR '':'' \<notin> set x \<Longrightarrow> str_split '':'' (''HEAD:'' @ x) = [''HEAD'', x]"
  using split_from_plain [of "CHR '':''" x "[]"] by (simp add: str_split_def)

lemma parent_of_record:
  assumes "map_of fs (record_file r d) = Some (File (record_header x message @ rest))"
    and "CHR '':'' \<notin> set x" and "LF \<notin> set x" and "CR \<notin> set x"
  shows "parent_pointer r fs d = Some x"
proof -
  obtain tail where rh: "record_header x message @ rest = (''HEAD:'' @ x) @ LF # tail"
    by (simp add: record_header_def)
  have cr: "CR \<notin> set (''HEAD:'' @ x)" and lf: "LF \<notin> set (''HEAD:'' @ x)"
    using assms(3,4) by auto
  have "open_read fs (record_file r d)
          = Inr ((''HEAD:'' @ x) @ LF # universal_newlines tail)"
    using assms(1) universal_newlines_line [OF cr, of tail]
    by (simp only: open_read_def rh option.case entry.case)
  moreover have "strip_nl (readline ((''HEAD:'' @ x) @ LF # universal_newlines tail))
                   = ''HEAD:'' @ x"
    using readline_line [OF lf] strip_nl_line [OF lf] by simp
  ultimately show ?thesis
    using split_HEAD [OF assms(2)]
    by (simp add: parent_pointer_def record_file_def)
qed

lemma blob_dir_inject:
  assumes "is_digest d" and "is_digest e"
    and "blob_dir (repo_at cwd folder) d = blob_dir (repo_at cwd folder) e"
  shows "d = e"
  using assms(3) repo_at_digest_paths(2) [OF assms(1)] repo_at_digest_paths(2) [OF assms(2)]
  by simp

lemma two_commits:
  fixes cwd folder sha1 h1 h2 now1 now2 message1 message2 fs
  defines "r \<equiv> repo_at cwd folder"
  defines "d1 \<equiv> sha1 (now1 @ stagingFilePath r)"
  defines "d2 \<equiv> sha1 (now2 @ stagingFilePath r)"
  defines "D1 \<equiv> disk (commit sha1 h1 now1 r message1 fs)"
  defines "D2 \<equiv> disk (commit sha1 h2 now2 r message2 D1)"
  assumes dg: "digest_fn sha1"
    and ex: "os_path_exists fs (stagingFilePath r)"
    and fresh: "open_read fs (headFile r) = Inr []"
    and ok1: "raised (commit sha1 h1 now1 r message1 fs) = None"
    and ok2: "raised (commit sha1 h2 now2 r message2 D1) = None"
  shows "d1 \<noteq> d2"
    and "\<exists>rest. map_of D2 (record_file r d2)
           = Some (File (record_header d1 message2 @ rest))"
    and "parent_pointer r D2 d2 = Some d1"
    and "parent_pointer r D2 d1 = Some []"
    and "open_read D2 (headFile r) = Inr d2"
proof -
  have is1: "is_digest d1" and is2: "is_digest d2"
    using dg by (simp_all add: digest_fn_def d1_def d2_def)
  note p = repo_at_paths [of cwd folder, folded r_def]
  note dp1 = repo_at_digest_paths [OF is1, of cwd folder, folded r_def]
  note dp2 = repo_at_digest_paths [OF is2, of cwd folder, folded r_def]
  note e1 = commit_effect [OF dg ok1 [unfolded r_def D1_def] ex [unfolded r_def],
      folded r_def, folded d1_def D1_def]
  have st: "map_of D1 (stagingFilePath r) = map_of fs (stagingFilePath r)"
    by (rule e1(4)) (simp_all add: p dp1)
  with ex have ex1: "os_path_exists D1 (stagingFilePath r)" by (simp add: os_path_exists_def)
  note e2 = commit_effect [OF dg ok2 [unfolded r_def D2_def] ex1 [unfolded r_def],
      folded r_def, folded d2_def D2_def]
  from e1(2) have "os_path_exists D1 (blob_dir r d1)" by (simp add: os_path_exists_def)
  with e2(5) have "blob_dir r d1 \<noteq> blob_dir r d2" by auto
  then show ne: "d1 \<noteq> d2" by auto
  have u1: "universal_newlines d1 = d1" and u2: "universal_newlines d2 = d2"
    using digest_plain(4) [OF is1] digest_plain(4) [OF is2] universal_newlines_id by simp_all
  have t1: "text_of D1 (headFile r) = d1"
    using e1(1) u1 by (simp add: text_of_def open_read_def)
  from e2(3) t1 show r2: "\<exists>rest. map_of D2 (record_file r d2)
           = Some (File (record_header d1 message2 @ rest))" by simp
  then obtain rest2 where "map_of D2 (record_file r d2)
           = Some (File (record_header d1 message2 @ rest2))" ..
  from parent_of_record [OF this] digest_plain [OF is1]
  show "parent_pointer r D2 d2 = Some d1" by simp
  have t0: "text_of fs (headFile r) = []" using fresh by (simp add: text_of_def)
  from e1(3) t0 obtain rest1 where
    "map_of D1 (record_file r d1) = Some (File (record_header [] message1 @ rest1))" by auto
  moreover have "map_of D2 (record_file r d1) = map_of D1 (record_file r d1)"
    by (rule e2(4)) (use ne digest_not_HEAD [OF is1] in \<open>simp_all add: p dp1 dp2\<close>)
  ultimately have "map_of D2 (record_file r d1)
      = Some (File (record_header [] message1 @ rest1))" by simp
  from parent_of_record [OF this] show "parent_pointer r D2 d1 = Some []" by simp
  show "open_read D2 (headFile r) = Inr d2"
    using e2(1) u2 by (simp add: open_read_def)
qed

text \<open>
  Claim C3, as the code has it. In a repository whose HEAD is empty, two commits in
  sequence that both run to their end have distinct digests; the record of the second begins with the line
  \<open>HEAD:\<close> followed by the digest of the first, so its parent field is the first digest;
  and search from HEAD, or from the second digest, with room for two levels returns the
  second digest followed by the first. (A second commit with the digest of the first does
  not run to its end: its blob directory exists already.)
\<close>

theorem commit_twice_chain:
  fixes cwd folder sha1 h1 h2 now1 now2 message1 message2 fs maxDepth
  defines "r \<equiv> repo_at cwd folder"
  defines "d1 \<equiv> sha1 (now1 @ stagingFilePath r)"
  defines "d2 \<equiv> sha1 (now2 @ stagingFilePath r)"
  defines "D1 \<equiv> disk (commit sha1 h1 now1 r message1 fs)"
  defines "D2 \<equiv> disk (commit sha1 h2 now2 r message2 D1)"
  assumes "digest_fn sha1"
    and "os_path_exists fs (stagingFilePath r)"
    and "open_read fs (headFile r) = Inr []"
    and "raised (commit sha1 h1 now1 r message1 fs) = None"
    and "raised (commit sha1 h2 now2 r message2 D1) = None"
    and "2 \<le> maxDepth"
  shows "d1 \<noteq> d2
       \<and> (\<exists>rest. map_of D2 (record_file r d2) = Some (File (''HEAD:'' @ d1 @ [LF] @ rest)))
       \<and> parent_pointer r D2 d2 = Some d1
       \<and> search r D2 None 0 maxDepth = ([], Inr (Some [d2, d1]))
       \<and> search r D2 (Some d2) 0 maxDepth = ([], Inr (Some [d2, d1]))"
proof -
  note t = two_commits [OF assms(6) assms(7) [unfolded r_def] assms(8) [unfolded r_def]
      assms(9) [unfolded r_def] assms(10) [unfolded D1_def r_def],
      folded r_def, folded d1_def d2_def D1_def, folded D2_def]
  have is1: "is_digest d1" and is2: "is_digest d2"
    using assms(6) by (simp_all add: digest_fn_def d1_def d2_def)
  have ne1: "d1 \<noteq> []" and ne2: "d2 \<noteq> []"
    using digest_nonempty is1 is2 by simp_all
  have chain: "history_chain r D2 [d2, d1]" using t(3,4) ne1 by simp
  have two: "take (nat maxDepth) [d2, d1] = [d2, d1]"
  proof -
    from assms(11) have "2 \<le> nat maxDepth" by simp
    then show ?thesis by simp
  qed
  have pos: "0 < maxDepth" using assms(11) by simp
  have s2: "search r D2 (Some d2) 0 maxDepth = ([], Inr (Some [d2, d1]))"
    using search_chain [OF chain pos] two by simp
  have "strip_nl d2 = d2" using digest_plain(3) [OF is2] by (rule strip_nl_id)
  with search_from_head [OF t(5), of maxDepth] ne2 pos s2
  have s0: "search r D2 None 0 maxDepth = ([], Inr (Some [d2, d1]))" by simp
  from t(2) have "\<exists>rest. map_of D2 (record_file r d2)
      = Some (File (''HEAD:'' @ d1 @ [LF] @ rest))"
    by (auto simp add: record_header_def)
  with t(1,3) s0 s2 show ?thesis by simp
qed

text \<open>The example project after one commit of the two staged files, and after a second.\<close>

definition first_commit_disk :: filesystem where
  "first_commit_disk =
     disk (commit demo_sha1 (\<lambda>_. 0) ''20260101 10-00-00'' (repo_at ''/p'' ''/p'') [''first'']
             staged_disk)"

definition second_commit_disk :: filesystem where
  "second_commit_disk =
     disk (commit demo_sha1 (\<lambda>_. 0) ''20260101 10-00-01'' (repo_at ''/p'' ''/p'') [''second'']
             first_commit_disk)"

theorem commit_twice_chain_witness:
  "digest_fn demo_sha1
   \<and> os_path_exists staged_disk (stagingFilePath (repo_at ''/p'' ''/p''))
   \<and> open_read staged_disk (headFile (repo_at ''/p'' ''/p'')) = Inr []
   \<and> raised (commit demo_sha1 (\<lambda>_. 0) ''20260101 10-00-00'' (repo_at ''/p'' ''/p'') [''first'']
               staged_disk) = None
   \<and> raised (commit demo_sha1 (\<lambda>_. 0) ''20260101 10-00-01'' (repo_at ''/p'' ''/p'') [''second'']
               first_commit_disk) = None
   \<and> demo_sha1 (''20260101 10-00-00'' @ ''/p/.easygit/stagingCache'')
       \<noteq> demo_sha1 (''20260101 10-00-01'' @ ''/p/.easygit/stagingCache'')
   \<and> parent_pointer (repo_at ''/p'' ''/p'') second_commit_disk
        (demo_sha1 (''20260101 10-00-01'' @ ''/p/.easygit/stagingCache''))
       = Some (demo_sha1 (''20260101 10-00-00'' @ ''/p/.easygit/stagingCache''))
   \<and> search (repo_at ''/p'' ''/p'') second_commit_disk None 0 5
       = ([], Inr (Some [demo_sha1 (''20260101 10-00-01'' @ ''/p/.easygit/stagingCache''),
                         demo_sha1 (''20260101 10-00-00'' @ ''/p/.easygit/stagingCache'')]))"
proof -
  have a: "os_path_exists staged_disk (stagingFilePath (repo_at ''/p'' ''/p''))"
    and b: "open_read staged_disk (headFile (repo_at ''/p'' ''/p'')) = Inr []"
    and c: "raised (commit demo_sha1 (\<lambda>_. 0) ''20260101 10-00-00'' (repo_at ''/p'' ''/p'')
                      [''first''] staged_disk) = None"
    and d: "raised (commit demo_sha1 (\<lambda>_. 0) ''20260101 10-00-01'' (repo_at ''/p'' ''/p'')
                      [''second''] first_commit_disk) = None"
    and e: "stagingFilePath (repo_at ''/p'' ''/p'') = ''/p/.easygit/stagingCache''"
    by code_simp+
  have f: "(2::int) \<le> 5" by simp
  from commit_twice_chain [OF demo_sha1_digest a b c d [unfolded first_commit_disk_def] f]
       a b c d e demo_sha1_digest
  show ?thesis by (simp add: first_commit_disk_def second_commit_disk_def)
qed

text \<open>
  Two commits on the example project that read the same time stamp. The report holds
  what each commit raised, what HEAD reads after each, and what search from HEAD returns
  in the end.
\<close>

record same_time =
  first_raised :: "error option"
  second_raised :: "error option"
  head_after_first :: "error + string"
  head_after_second :: "error + string"
  history :: "log_record list \<times> (error + string list option)"

definition run_same_time :: same_time where
  "run_same_time =
     (let r = repo_at ''/p'' ''/p'';
          c1 = commit demo_sha1 (\<lambda>_. 0) ''20260101 10-00-00'' r [''first''] staged_disk;
          c2 = commit demo_sha1 (\<lambda>_. 0) ''20260101 10-00-00'' r [''second''] (disk c1)
      in \<lparr> first_raised = raised c1,
           second_raised = raised c2,
           head_after_first = open_read (disk c1) (headFile r),
           head_after_second = open_read (disk c2) (headFile r),
           history = search r (disk c2) None 0 5 \<rparr>)"

text \<open>
  Claim C3, as stated, fails when the second commit reads the same time stamp as the
  first: both calls compute the same digest, the second rewrites HEAD with it and stops
  with FileExistsError at the blob directory, and search finds one digest, not two.
\<close>

theorem commit_twice_same_time:
  "run_same_time =
     \<lparr> first_raised = None,
       second_raised = Some FileExistsError,
       head_after_first = Inr (demo_sha1 (''20260101 10-00-00'' @ ''/p/.easygit/stagingCache'')),
       head_after_second = Inr (demo_sha1 (''20260101 10-00-00'' @ ''/p/.easygit/stagingCache'')),
       history =
         ([], Inr (Some [demo_sha1 (''20260101 10-00-00'' @ ''/p/.easygit/stagingCache'')])) \<rparr>"
  by code_simp

section \<open>Commit and restore\<close>

text \<open>
  The round trip on the example project: \<open>a.txt\<close> and \<open>b.txt\<close> are staged and committed
  with the message \<open>first\<close>, both files are deleted, and restore is called with no
  argument. \<open>h\<close> is the order in which the sets of paths are visited. The report holds
  what the commit raised, whether both files were gone before restore, the lines of the
  commit record as restore reads them, the positions of the first separator line and of
  the next one after it, what restore raised, and the two files after restore.
\<close>

record round_trip =
  commit_raised :: "error option"
  both_deleted :: bool
  record_content :: "string list"
  top_index :: "error + nat"
  next_index :: "error + nat"
  restore_raised :: "error option"
  a_txt :: "entry option"
  b_txt :: "entry option"

definition run_round_trip :: "(string \<Rightarrow> nat) \<Rightarrow> round_trip" where
  "run_round_trip h =
     (let staged = disk (add h demo_repo [''a.txt'', ''b.txt''] demo_disk);
          committed = commit demo_sha1 h ''20260101 10-00-00'' demo_repo [''first''] staged;
          emptied = AList.delete ''/p/a.txt'' (AList.delete ''/p/b.txt'' (disk committed));
          content = map strip_nl (readlines (text_of emptied
                      (record_file demo_repo (text_of emptied (headFile demo_repo)))));
          restored = restore demo_repo None emptied
      in \<lparr> commit_raised = raised committed,
           both_deleted = (\<not> os_path_exists emptied ''/p/a.txt''
                           \<and> \<not> os_path_exists emptied ''/p/b.txt''),
           record_content = content,
           top_index = list_index content ''====='' 0,
           next_index = list_index content ''====='' 3,
           restore_raised = raised restored,
           a_txt = map_of (disk restored) ''/p/a.txt'',
           b_txt = map_of (disk restored) ''/p/b.txt'' \<rparr>)"

text \<open>
  Claim C1 (the round trip) fails on the code. restore returns without an exception and
  recreates only one of the two files. The record's separator lines are at positions 2
  and 4 and the associations at 5 and 6; restore starts at
  \<open>topIndex + content.index("=====", topIndex + 1) = 2 + 4 = 6\<close> and so passes over the
  first association. In either order of the two staged paths, the file written first
  into the record is not restored.
\<close>

theorem restore_skips_first_association:
  "run_round_trip (\<lambda>_. 0) =
     \<lparr> commit_raised = None,
       both_deleted = True,
       record_content =
         [''HEAD:'', ''Commitment Message:'', ''====='', ''first'', ''====='',
          ''/p/a.txt:::'' @ demo_sha1 (''/p/a.txt'' @ ''hello''),
          ''/p/b.txt:::'' @ demo_sha1 (''/p/b.txt'' @ ''world'')],
       top_index = Inr 2,
       next_index = Inr 4,
       restore_raised = None,
       a_txt = None,
       b_txt = Some (File ''world'') \<rparr>
   \<and> run_round_trip (\<lambda>p. if p = ''/p/a.txt'' then 1 else 0) =
     \<lparr> commit_raised = None,
       both_deleted = True,
       record_content =
         [''HEAD:'', ''Commitment Message:'', ''====='', ''first'', ''====='',
          ''/p/b.txt:::'' @ demo_sha1 (''/p/b.txt'' @ ''world''),
          ''/p/a.txt:::'' @ demo_sha1 (''/p/a.txt'' @ ''hello'')],
       top_index = Inr 2,
       next_index = Inr 4,
       restore_raised = None,
       a_txt = Some (File ''hello''),
       b_txt = None \<rparr>"
  by code_simp

end
